theory Spec2Isabelle
  imports Main "HOL-Library.Word" "HOL-Library.Multiset"
begin

section \<open>JavaScript strings\<close>

text \<open>
  A JavaScript string is a sequence of UTF-16 code units. The scripts test cells for
  Cyrillic letters, so the code units are kept as 16-bit words rather than bytes.
  \<open>S\<close> turns an ASCII literal into such a string.
\<close>

type_synonym jchar = "16 word"
type_synonym jstring = "jchar list"

definition S :: "string \<Rightarrow> jstring" where
  "S = map of_char"

text \<open>\<open>String.prototype.trim\<close>: the white space and line terminators of ECMAScript.\<close>

definition isWhiteSpace :: "jchar \<Rightarrow> bool" where
  "isWhiteSpace c \<longleftrightarrow>
     c = 0x09 \<or> c = 0x0A \<or> c = 0x0B \<or> c = 0x0C \<or> c = 0x0D \<or> c = 0x20 \<or> c = 0xA0 \<or>
     c = 0x1680 \<or> (0x2000 \<le> c \<and> c \<le> 0x200A) \<or> c = 0x2028 \<or> c = 0x2029 \<or>
     c = 0x202F \<or> c = 0x205F \<or> c = 0x3000 \<or> c = 0xFEFF"

definition trim :: "jstring \<Rightarrow> jstring" where
  "trim s = rev (dropWhile isWhiteSpace (rev (dropWhile isWhiteSpace s)))"

text \<open>
  \<open>toLowerCase\<close> and \<open>toUpperCase\<close> on the ASCII letters; every other code unit is
  left as it is (the full Unicode case tables are not part of this development).
\<close>

definition lowerChar :: "jchar \<Rightarrow> jchar" where
  "lowerChar c = (if 0x41 \<le> c \<and> c \<le> 0x5A then c + 0x20 else c)"

definition upperChar :: "jchar \<Rightarrow> jchar" where
  "upperChar c = (if 0x61 \<le> c \<and> c \<le> 0x7A then c - 0x20 else c)"

definition toLowerCase :: "jstring \<Rightarrow> jstring" where
  "toLowerCase = map lowerChar"

definition toUpperCase :: "jstring \<Rightarrow> jstring" where
  "toUpperCase = map upperChar"

text \<open>\<open>s.includes(c)\<close> for a one-character needle and \<open>s.startsWith(p)\<close>.\<close>

definition includesChar :: "jstring \<Rightarrow> jchar \<Rightarrow> bool" where
  "includesChar s c \<longleftrightarrow> c \<in> set s"

fun startsWith :: "jstring \<Rightarrow> jstring \<Rightarrow> bool" where
  "startsWith s [] = True"
| "startsWith [] (p # ps) = False"
| "startsWith (c # cs) (p # ps) = (c = p \<and> startsWith cs ps)"

text \<open>\<open>xs.join(sep)\<close>.\<close>

fun join :: "jstring \<Rightarrow> jstring list \<Rightarrow> jstring" where
  "join sep [] = []"
| "join sep [x] = x"
| "join sep (x # y # ys) = x @ sep @ join sep (y # ys)"

text \<open>
  \<open>s.split(c)\<close> with a one-character string separator: every occurrence of the
  separator cuts, and the empty string gives one empty piece.
\<close>

function splitStr :: "jchar \<Rightarrow> jstring \<Rightarrow> jstring list" where
  "splitStr c s =
     (let a = takeWhile (\<lambda>x. x \<noteq> c) s; r = dropWhile (\<lambda>x. x \<noteq> c) s
      in if r = [] then [a] else a # splitStr c (tl r))"
  by pat_completeness auto
termination
proof (relation "measure (\<lambda>(c, s). length s)")
  show "wf (measure (\<lambda>(c, s). length s))" by simp
next
  fix c :: jchar and s a r :: jstring
  assume r: "r = dropWhile (\<lambda>x. x \<noteq> c) s" and ne: "r \<noteq> []"
  have "length (tl r) < length r" using ne by (cases r) simp_all
  moreover have "length r \<le> length s" unfolding r by (rule length_dropWhile_le)
  ultimately show "((c, tl r), (c, s)) \<in> measure (\<lambda>(c, s). length s)" by simp
qed

declare splitStr.simps [simp del]

text \<open>
  \<open>s.split(/[...]+/)\<close> with a character class under \<open>+\<close>: a maximal run of separator
  characters cuts once; a run at the start or at the end leaves an empty piece there.
\<close>

function splitRuns :: "(jchar \<Rightarrow> bool) \<Rightarrow> jstring \<Rightarrow> jstring list" where
  "splitRuns sep s =
     (let a = takeWhile (\<lambda>x. \<not> sep x) s; r = dropWhile (\<lambda>x. \<not> sep x) s
      in if r = [] then [a] else a # splitRuns sep (dropWhile sep r))"
  by pat_completeness auto
termination
proof (relation "measure (\<lambda>(sep, s). length s)")
  show "wf (measure (\<lambda>(sep, s). length s))" by simp
next
  fix sep :: "jchar \<Rightarrow> bool" and s a r :: jstring
  assume r: "r = dropWhile (\<lambda>x. \<not> sep x) s" and ne: "r \<noteq> []"
  from ne obtain x xs where rx: "r = x # xs" by (cases r) auto
  have "dropWhile (\<lambda>x. \<not> sep x) s \<noteq> []" using ne r by simp
  then have "\<not> \<not> sep (hd (dropWhile (\<lambda>x. \<not> sep x) s))" by (rule hd_dropWhile)
  then have "sep x" using r rx by (metis list.sel(1))
  then have "length (dropWhile sep r) \<le> length xs"
    by (simp add: rx length_dropWhile_le)
  moreover have "length r \<le> length s" unfolding r by (rule length_dropWhile_le)
  ultimately show "((sep, dropWhile sep r), (sep, s)) \<in> measure (\<lambda>(sep, s). length s)"
    by (simp add: rx)
qed

declare splitRuns.simps [simp del]

text \<open>The separator classes \<open>[\r\n,]\<close> and \<open>[\n,]\<close> of the scripts.\<close>

definition sepCRLFComma :: "jchar \<Rightarrow> bool" where
  "sepCRLFComma c \<longleftrightarrow> c = 0x0D \<or> c = 0x0A \<or> c = 0x2C"

definition sepLFComma :: "jchar \<Rightarrow> bool" where
  "sepLFComma c \<longleftrightarrow> c = 0x0A \<or> c = 0x2C"

section \<open>Regular expressions\<close>

text \<open>
  The patterns of the scripts use character classes, concatenation, alternation and
  \<open>+\<close>. A class is a list of inclusive code-unit ranges. \<open>test\<close> on an anchored
  pattern \<open>^r$\<close> is \<open>matches r\<close>; on an unanchored one it is \<open>search r\<close>.
\<close>

datatype regex =
    RNone
  | REps
  | RClass "(jchar \<times> jchar) list"
  | RSeq regex regex
  | RAlt regex regex
  | RStar regex
  | RPlus regex

definition inClass :: "(jchar \<times> jchar) list \<Rightarrow> jchar \<Rightarrow> bool" where
  "inClass rs c = list_ex (\<lambda>(lo, hi). lo \<le> c \<and> c \<le> hi) rs"

fun nullable :: "regex \<Rightarrow> bool" where
  "nullable RNone = False"
| "nullable REps = True"
| "nullable (RClass rs) = False"
| "nullable (RSeq r s) = (nullable r \<and> nullable s)"
| "nullable (RAlt r s) = (nullable r \<or> nullable s)"
| "nullable (RStar r) = True"
| "nullable (RPlus r) = nullable r"

fun deriv :: "jchar \<Rightarrow> regex \<Rightarrow> regex" where
  "deriv c RNone = RNone"
| "deriv c REps = RNone"
| "deriv c (RClass rs) = (if inClass rs c then REps else RNone)"
| "deriv c (RSeq r s) =
     (if nullable r then RAlt (RSeq (deriv c r) s) (deriv c s) else RSeq (deriv c r) s)"
| "deriv c (RAlt r s) = RAlt (deriv c r) (deriv c s)"
| "deriv c (RStar r) = RSeq (deriv c r) (RStar r)"
| "deriv c (RPlus r) = RSeq (deriv c r) (RStar r)"

fun matches :: "regex \<Rightarrow> jstring \<Rightarrow> bool" where
  "matches r [] = nullable r"
| "matches r (c # cs) = matches (deriv c r) cs"

definition anyChar :: regex where
  "anyChar = RClass [(0, 0xFFFF)]"

definition search :: "regex \<Rightarrow> jstring \<Rightarrow> bool" where
  "search r s = matches (RSeq (RStar anyChar) (RSeq r (RStar anyChar))) s"

definition chr :: "jchar \<Rightarrow> regex" where
  "chr c = RClass [(c, c)]"

definition digit :: regex where
  "digit = RClass [(0x30, 0x39)]"

definition dotChar :: jchar where "dotChar = 0x2E"
definition slashChar :: jchar where "slashChar = 0x2F"
definition colonChar :: jchar where "colonChar = 0x3A"
definition quoteChar :: jchar where "quoteChar = 0x22"

text \<open>\<open>\d+\.\d+\.\d+\.\d+\<close>\<close>

definition rxQuad :: regex where
  "rxQuad = RSeq (RPlus digit) (RSeq (chr dotChar) (RSeq (RPlus digit) (RSeq (chr dotChar)
              (RSeq (RPlus digit) (RSeq (chr dotChar) (RPlus digit))))))"

text \<open>\<open>\d+\.\d+\.\d+\.\d+\/\d+\<close>\<close>

definition rxQuadPrefix :: regex where
  "rxQuadPrefix = RSeq rxQuad (RSeq (chr slashChar) (RPlus digit))"

text \<open>\<open>\d+\.\d+\.\d+\.\d+(?:\/\d+)?\<close>\<close>

definition rxQuadOptPrefix :: regex where
  "rxQuadOptPrefix = RSeq rxQuad (RAlt (RSeq (chr slashChar) (RPlus digit)) REps)"

text \<open>\<open>[a-zA-Z]\<close> and the Cyrillic class of the validator.\<close>

definition rxLetter :: regex where
  "rxLetter = RClass [(0x61, 0x7A), (0x41, 0x5A)]"

definition rxCyrillic :: regex where
  "rxCyrillic = RClass [(0x410, 0x42F), (0x430, 0x44F), (0x401, 0x401), (0x451, 0x451)]"

section \<open>JavaScript objects used as dictionaries\<close>

text \<open>
  An object literal \<open>{}\<close> used as a dictionary is kept as the list of its own
  properties in insertion order. Three facts of the language matter to the scripts:
  \<^item> keys that are canonical array indices are enumerated first, in ascending numeric
    order, and the other keys after them in insertion order (\<open>Object.keys\<close>,
    \<open>Object.values\<close>, \<open>Object.entries\<close>, spread);
  \<^item> reading \<open>o[k]\<close> finds the properties inherited from \<open>Object.prototype\<close> when
    \<open>o\<close> has no own property \<open>k\<close>;
  \<^item> the assignment \<open>o['__proto__'] = v\<close> with a string \<open>v\<close> runs the inherited setter,
    which ignores a value that is not an object: no property is created.
\<close>

type_synonym 'v jsobj = "(jstring \<times> 'v) list"

fun objSet :: "'v jsobj \<Rightarrow> jstring \<Rightarrow> 'v \<Rightarrow> 'v jsobj" where
  "objSet [] k v = [(k, v)]"
| "objSet ((k', v') # ob) k v = (if k' = k then (k, v) # ob else (k', v') # objSet ob k v)"

definition objGet :: "'v jsobj \<Rightarrow> jstring \<Rightarrow> 'v option" where
  "objGet ob k = map_of ob k"

definition protoNames :: "jstring list" where
  "protoNames = map S [''constructor'', ''__defineGetter__'', ''__defineSetter__'',
     ''hasOwnProperty'', ''__lookupGetter__'', ''__lookupSetter__'', ''isPrototypeOf'',
     ''propertyIsEnumerable'', ''toString'', ''valueOf'', ''__proto__'', ''toLocaleString'']"

definition inherited :: "jstring \<Rightarrow> bool" where
  "inherited k \<longleftrightarrow> k \<in> set protoNames"

definition objAssignStr :: "jstring jsobj \<Rightarrow> jstring \<Rightarrow> jstring \<Rightarrow> jstring jsobj" where
  "objAssignStr ob k v = (if k = S ''__proto__'' then ob else objSet ob k v)"

definition isDigit :: "jchar \<Rightarrow> bool" where
  "isDigit c \<longleftrightarrow> 0x30 \<le> c \<and> c \<le> 0x39"

definition strNat :: "jstring \<Rightarrow> int" where
  "strNat s = foldl (\<lambda>n c. 10 * n + uint (c - 0x30)) 0 s"

definition isArrayIndex :: "jstring \<Rightarrow> bool" where
  "isArrayIndex k \<longleftrightarrow>
     k \<noteq> [] \<and> list_all isDigit k \<and> (length k = 1 \<or> hd k \<noteq> 0x30) \<and> strNat k < 4294967295"

definition objEntries :: "'v jsobj \<Rightarrow> (jstring \<times> 'v) list" where
  "objEntries ob =
     sort_key (\<lambda>p. strNat (fst p)) (filter (\<lambda>p. isArrayIndex (fst p)) ob) @
     filter (\<lambda>p. \<not> isArrayIndex (fst p)) ob"

definition objKeys :: "'v jsobj \<Rightarrow> jstring list" where
  "objKeys ob = map fst (objEntries ob)"

definition objValues :: "'v jsobj \<Rightarrow> 'v list" where
  "objValues ob = map snd (objEntries ob)"

text \<open>\<open>{...target, ...src}\<close>: the own properties of \<open>src\<close> are defined on the target in
  enumeration order.\<close>

definition objSpread :: "'v jsobj \<Rightarrow> 'v jsobj \<Rightarrow> 'v jsobj" where
  "objSpread target src = foldl (\<lambda>ob p. objSet ob (fst p) (snd p)) target (objEntries src)"

section \<open>Documents\<close>

text \<open>The values that \<open>yaml.loadAll\<close> yields and \<open>yaml.dump\<close> takes.\<close>

datatype json =
    JNull
  | JBool bool
  | JNum int
  | JStr jstring
  | JArr "json list"
  | JObj "(jstring \<times> json) list"

fun truthy :: "json \<Rightarrow> bool" where
  "truthy JNull = False"
| "truthy (JBool b) = b"
| "truthy (JNum n) = (n \<noteq> 0)"
| "truthy (JStr s) = (s \<noteq> [])"
| "truthy (JArr xs) = True"
| "truthy (JObj kvs) = True"

definition labelsJson :: "jstring jsobj \<Rightarrow> json" where
  "labelsJson labels = JObj (map (\<lambda>p. (fst p, JStr (snd p))) labels)"

section \<open>Utilities of the scripts\<close>

text \<open>\<open>splitLabels\<close> (the same in every version of the script).\<close>

definition labelSegments :: "jstring \<Rightarrow> jstring list" where
  "labelSegments raw =
     filter (\<lambda>s. includesChar s colonChar) (map trim (splitRuns sepLFComma raw))"

definition labelStep :: "jstring jsobj \<Rightarrow> jstring \<Rightarrow> jstring jsobj" where
  "labelStep ob p =
     (case splitStr colonChar p of
        [] \<Rightarrow> ob
      | k # v \<Rightarrow> objAssignStr ob (trim k) (trim (join [colonChar] v)))"

definition splitLabels :: "jstring \<Rightarrow> jstring jsobj" where
  "splitLabels raw = foldl labelStep [] (labelSegments raw)"

text \<open>\<open>detectType\<close> of \<open>converter_03_07_2025.js\<close>. The result pairs a tag with a value;
  the tags are the constructors.\<close>

datatype detected =
    TEmpty
  | TCidrList "jstring list"
  | TCidr jstring
  | TFqdn jstring
  | TLabel jstring

definition detectItems :: "jstring \<Rightarrow> jstring list" where
  "detectItems v = filter (\<lambda>s. s \<noteq> []) (map trim (splitRuns sepCRLFComma v))"

definition detectType :: "jstring \<Rightarrow> detected" where
  "detectType v0 =
     (let v = trim v0 in
      if v = [] then TEmpty
      else
        let items = detectItems v;
            allIPs = list_all (matches rxQuadOptPrefix) items
        in if allIPs \<and> length items > 1
           then TCidrList (map (\<lambda>it. if includesChar it slashChar then it else it @ S ''/32'') items)
           else if matches rxQuadPrefix v then TCidr v
           else if matches rxQuad v then TCidr (v @ S ''/32'')
           else if search rxLetter v \<and> includesChar v dotChar then TFqdn (toLowerCase v)
           else TLabel v)"

section \<open>Rows\<close>

record entry =
  protocol :: jstring
  sourceLabel :: jstring
  destLabel :: jstring
  direction :: jstring
  port :: jstring
  rowNum :: nat
  rules :: "json option"

section \<open>\<open>makeRule\<close> of \<open>convert.js\<close>\<close>

definition stripQuotes :: "jstring \<Rightarrow> jstring" where
  "stripQuotes s =
     (let s1 = (case s of [] \<Rightarrow> [] | c # cs \<Rightarrow> if c = quoteChar then cs else s)
      in if s1 \<noteq> [] \<and> last s1 = quoteChar then butlast s1 else s1)"

definition cidrItems :: "jstring \<Rightarrow> jstring list" where
  "cidrItems cell =
     map (\<lambda>ip. if includesChar ip slashChar then ip else ip @ S ''/32'')
       (filter (\<lambda>s. s \<noteq> [])
         (map (\<lambda>s. stripQuotes (trim s)) (splitRuns sepCRLFComma cell)))"

text \<open>\<open>const [nsPart, labPart] = cell.split('/')\<close>, reached only when the cell contains
  a slash, so that the split has at least two pieces (lemma \<open>splitStr_two_pieces\<close>).\<close>

definition namespacedLabels :: "jstring \<Rightarrow> jstring jsobj" where
  "namespacedLabels cell =
     (case splitStr slashChar cell of
        nsPart # labPart # rest \<Rightarrow>
          objSpread [(S ''io.kubernetes.pod.namespace'', trim nsPart)] (splitLabels labPart)
      | _ \<Rightarrow> [])"

definition selectorOf :: "jstring \<Rightarrow> jstring jsobj \<times> jstring list" where
  "selectorOf cell =
     (if cell \<noteq> [] then
        if search rxQuad cell then ([], cidrItems cell)
        else if includesChar cell slashChar \<and> \<not> startsWith cell (S ''app.kubernetes.io/'')
        then (namespacedLabels cell, [])
        else (splitLabels cell, [])
      else ([], []))"

definition portList :: "jstring \<Rightarrow> jstring list" where
  "portList p = filter (\<lambda>s. s \<noteq> []) (map trim (splitRuns sepCRLFComma p))"

definition portEntry :: "jstring \<Rightarrow> jstring \<Rightarrow> json" where
  "portEntry proto pv =
     (let po = [(S ''port'', JStr pv)]
      in JObj (if proto \<noteq> [] \<and> toUpperCase proto \<noteq> S ''ANY''
               then objSet po (S ''protocol'') (JStr (toUpperCase proto)) else po))"

definition portsBlock :: "entry \<Rightarrow> json" where
  "portsBlock e =
     (let portsArray = map (portEntry (protocol e)) (portList (port e));
          pb = [(S ''ports'', JArr portsArray)]
      in JObj (case rules e of
                 Some r \<Rightarrow> if truthy r then objSet pb (S ''rules'') r else pb
               | None \<Rightarrow> pb))"

definition makeRule :: "entry \<Rightarrow> json" where
  "makeRule e =
     (let prefix = (if direction e = S ''ingress'' then S ''from'' else S ''to'');
          cell = (if direction e = S ''ingress'' then sourceLabel e else destLabel e);
          (labels, cidrs) = selectorOf cell;
          r0 = [];
          r1 = (if objKeys labels \<noteq> []
                then objSet r0 (prefix @ S ''Endpoints'')
                       (JArr [JObj [(S ''matchLabels'', labelsJson labels)]])
                else r0);
          r2 = (if cidrs \<noteq> [] then objSet r1 (prefix @ S ''CIDR'') (JArr (map JStr cidrs))
                else r1)
      in JObj (objSet r2 (S ''toPorts'') (JArr [portsBlock e])))"

section \<open>The table and \<open>parseExcel\<close> of \<open>convert.js\<close>\<close>

text \<open>
  \<open>sheet_to_json\<close> with \<open>header: 1\<close> yields an array of rows, each an array of cell
  values: text, numbers, booleans, or nothing. Numbers are the integers that \<open>String\<close>
  prints in plain decimal digits.
\<close>

datatype cell = Undefined | Str jstring | Num int | Bool bool

type_synonym row = "cell list"

fun cellTruthy :: "cell \<Rightarrow> bool" where
  "cellTruthy Undefined = False"
| "cellTruthy (Str s) = (s \<noteq> [])"
| "cellTruthy (Num n) = (n \<noteq> 0)"
| "cellTruthy (Bool b) = b"

function showNat :: "nat \<Rightarrow> jstring" where
  "showNat n = (if n < 10 then [0x30 + of_nat n] else showNat (n div 10) @ [0x30 + of_nat (n mod 10)])"
  by pat_completeness auto
termination
  by (relation "measure (\<lambda>n. n)") auto

declare showNat.simps [simp del]

fun cellString :: "cell \<Rightarrow> jstring" where
  "cellString Undefined = S ''undefined''"
| "cellString (Str s) = s"
| "cellString (Num n) = (if n < 0 then S ''-'' @ showNat (nat (- n)) else showNat (nat n))"
| "cellString (Bool b) = (if b then S ''true'' else S ''false'')"

text \<open>\<open>String(c || '')\<close>\<close>

definition cellOrEmpty :: "cell \<Rightarrow> jstring" where
  "cellOrEmpty c = (if cellTruthy c then cellString c else [])"

text \<open>\<open>row[k]\<close>: reading past the end of the array gives \<open>undefined\<close>.\<close>

definition cellAt :: "row \<Rightarrow> nat \<Rightarrow> cell" where
  "cellAt r k = (if k < length r then r ! k else Undefined)"

datatype error =
    NamespaceNotFound
  | NamespaceBadFormat
  | NotAFunction
  | MissingRuleNumbers "nat list"
  | CyrillicRows "nat list"

record parsed =
  namespace :: jstring
  groups :: "entry list jsobj"
  entries :: "entry list"
  missingNums :: "nat list"

definition hasData :: "row \<Rightarrow> bool" where
  "hasData r = list_ex (\<lambda>c. cellTruthy c \<and> trim (cellString c) \<noteq> []) (take 5 (drop 1 r))"

definition rowEntry :: "nat \<Rightarrow> row \<Rightarrow> entry" where
  "rowEntry i r =
     (let proto = trim (cellOrEmpty (cellAt r 1));
          groupKey = trim (cellOrEmpty (cellAt r 2));
          dir = trim (toLowerCase (cellOrEmpty (cellAt r 3)));
          other = trim (cellOrEmpty (cellAt r 4));
          prt = trim (cellOrEmpty (cellAt r 5))
      in if dir = S ''ingress''
         then \<lparr>protocol = proto, sourceLabel = other, destLabel = groupKey,
               direction = dir, port = prt, rowNum = i + 1, rules = None\<rparr>
         else \<lparr>protocol = proto, sourceLabel = groupKey, destLabel = other,
               direction = dir, port = prt, rowNum = i + 1, rules = None\<rparr>)"

definition rowGroupKey :: "row \<Rightarrow> jstring" where
  "rowGroupKey r = trim (cellOrEmpty (cellAt r 2))"

text \<open>
  \<open>(groups[groupKey] ||= []).push(entry)\<close>. When the key names a property inherited
  from \<open>Object.prototype\<close> the read is truthy, nothing is assigned, and the value has no
  \<open>push\<close>: the call throws a \<open>TypeError\<close>.
\<close>

definition groupsPush :: "entry list jsobj \<Rightarrow> jstring \<Rightarrow> entry \<Rightarrow> error + entry list jsobj" where
  "groupsPush g k e =
     (case objGet g k of
        Some es \<Rightarrow> Inr (objSet g k (es @ [e]))
      | None \<Rightarrow> if inherited k then Inl NotAFunction else Inr (objSet g k [e]))"

fun parseRows :: "nat \<Rightarrow> row list \<Rightarrow> parsed \<Rightarrow> error + parsed" where
  "parseRows i [] st = Inr st"
| "parseRows i (r # rest) st =
     (let st1 = (if hasData r \<and> \<not> cellTruthy (cellAt r 0)
                 then st\<lparr>missingNums := missingNums st @ [i + 1]\<rparr> else st)
      in if \<not> hasData r then parseRows (i + 1) rest st1
         else
           let e = rowEntry i r
           in case groupsPush (groups st1) (rowGroupKey r) e of
                Inl err \<Rightarrow> Inl err
              | Inr g \<Rightarrow> parseRows (i + 1) rest (st1\<lparr>entries := entries st1 @ [e], groups := g\<rparr>))"

definition parseExcel :: "row list \<Rightarrow> error + parsed" where
  "parseExcel rows =
     (if length rows \<le> 1 \<or> \<not> cellTruthy (cellAt (rows ! 1) 0) then Inl NamespaceNotFound
      else
        let nsRaw = trim (cellString (cellAt (rows ! 1) 0))
        in if \<not> includesChar nsRaw colonChar then Inl NamespaceBadFormat
           else parseRows 2 (drop 2 rows)
                  \<lparr>namespace = trim (join [colonChar] (drop 1 (splitStr colonChar nsRaw))),
                   groups = [], entries = [], missingNums = []\<rparr>)"

section \<open>\<open>validate\<close> of \<open>convert.js\<close>\<close>

definition barChar :: jchar where "barChar = 0x7C"

definition sigKey :: "entry \<Rightarrow> jstring" where
  "sigKey e =
     join [barChar] [direction e, sourceLabel e, destLabel e, port e,
       toUpperCase (if protocol e \<noteq> [] then protocol e else S ''ANY'')]"

text \<open>
  \<open>if (seen[key]) dups.push({a: seen[key], b: e.rowNum}); else seen[key] = e.rowNum\<close>.
  The key always contains \<open>|\<close> (lemma \<open>sigKey_not_inherited\<close> below), so it never names
  an inherited property and the read sees own properties only. A stored row number is
  truthy when it is not zero.
\<close>

definition dupStep :: "nat jsobj \<times> (nat \<times> nat) list \<Rightarrow> entry \<Rightarrow> nat jsobj \<times> (nat \<times> nat) list" where
  "dupStep st e =
     (let seen = fst st; dups = snd st; key = sigKey e
      in case objGet seen key of
           Some a \<Rightarrow> if a \<noteq> 0 then (seen, dups @ [(a, rowNum e)])
                     else (objSet seen key (rowNum e), dups)
         | None \<Rightarrow> (objSet seen key (rowNum e), dups))"

definition hasCyrillic :: "entry \<Rightarrow> bool" where
  "hasCyrillic e =
     search rxCyrillic (sourceLabel e @ destLabel e @ protocol e @ direction e @ port e)"

text \<open>The result is the fatal exit (\<open>Inl\<close>) or the list of duplicate pairs that are
  printed as warnings (\<open>Inr\<close>).\<close>

definition validate :: "entry list \<Rightarrow> error + (nat \<times> nat) list" where
  "validate es =
     (let bad = filter hasCyrillic es
      in if bad \<noteq> [] then Inl (CyrillicRows (map rowNum bad))
         else Inr (snd (foldl dupStep ([], []) es)))"

section \<open>\<open>buildPolicy\<close> and the document list of \<open>main\<close> in \<open>convert.js\<close>\<close>

definition bucketStep :: "json list \<times> json list \<Rightarrow> entry \<Rightarrow> json list \<times> json list" where
  "bucketStep b e =
     (let rule = makeRule e
      in if direction e = S ''ingress'' then (fst b @ [rule], snd b) else (fst b, snd b @ [rule]))"

definition policyName :: "jstring \<Rightarrow> jstring jsobj \<Rightarrow> jstring" where
  "policyName ns labels =
     (let vals = objValues labels;
          suffix = (if length vals > 0 then join (S ''-'') vals else S ''default'')
      in ns @ S ''-'' @ suffix)"

definition policySpec :: "jstring jsobj \<Rightarrow> entry list \<Rightarrow> json jsobj" where
  "policySpec labels ents =
     (let spec0 = [(S ''endpointSelector'',
                    if objKeys labels \<noteq> [] then JObj [(S ''matchLabels'', labelsJson labels)]
                    else JObj [])];
          b = foldl bucketStep ([], []) ents;
          spec1 = (if fst b \<noteq> [] then objSet spec0 (S ''ingress'') (JArr (fst b)) else spec0)
      in if snd b \<noteq> [] then objSet spec1 (S ''egress'') (JArr (snd b)) else spec1)"

definition buildPolicy :: "jstring \<Rightarrow> jstring \<Rightarrow> entry list \<Rightarrow> json jsobj" where
  "buildPolicy ns groupKey ents =
     (let labels = splitLabels groupKey
      in [(S ''apiVersion'', JStr (S ''cilium.io/v2'')),
          (S ''kind'', JStr (S ''CiliumNetworkPolicy'')),
          (S ''metadata'', JObj [(S ''name'', JStr (policyName ns labels)),
                                 (S ''namespace'', JStr ns)]),
          (S ''spec'', JObj (policySpec labels ents))])"

text \<open>\<open>{...doc, metadata: {name: `${namespace}-default`, namespace}}\<close>\<close>

definition defaultPolicy :: "jstring \<Rightarrow> json jsobj \<Rightarrow> json jsobj" where
  "defaultPolicy ns doc =
     objSet (objSpread [] doc) (S ''metadata'')
       (JObj [(S ''name'', JStr (ns @ S ''-default'')), (S ''namespace'', JStr ns)])"

text \<open>
  \<open>main\<close> up to the list of documents handed to \<open>yaml.dump\<close>: extraction, the
  rule-number gate, validation, then the baseline documents followed by one document
  per group. The warnings of \<open>validate\<close> are returned beside the documents. The
  baseline-coverage test of \<open>main\<close> only chooses a console message and is left out.
\<close>

definition mainDocs :: "json jsobj list \<Rightarrow> row list \<Rightarrow> error + ((nat \<times> nat) list \<times> json jsobj list)" where
  "mainDocs defaultDocs rows =
     (case parseExcel rows of
        Inl err \<Rightarrow> Inl err
      | Inr p \<Rightarrow>
          if missingNums p \<noteq> [] then Inl (MissingRuleNumbers (missingNums p))
          else case validate (entries p) of
                 Inl err \<Rightarrow> Inl err
               | Inr dups \<Rightarrow>
                   Inr (dups,
                        map (defaultPolicy (namespace p)) defaultDocs @
                        map (\<lambda>kv. buildPolicy (namespace p) (fst kv) (snd kv))
                          (objEntries (groups p))))"

section \<open>Notions used to state the properties\<close>

text \<open>Reading a field of a document value.\<close>

definition jget :: "json \<Rightarrow> jstring \<Rightarrow> json option" where
  "jget j k = (case j of JObj kvs \<Rightarrow> objGet kvs k | _ \<Rightarrow> None)"

text \<open>The \<open>ingress\<close> or \<open>egress\<close> list of a policy document; empty when the field is
  absent.\<close>

definition specList :: "json jsobj \<Rightarrow> jstring \<Rightarrow> json list" where
  "specList doc field =
     (case objGet doc (S ''spec'') of
        Some (JObj sp) \<Rightarrow> (case objGet sp field of Some (JArr xs) \<Rightarrow> xs | _ \<Rightarrow> [])
      | _ \<Rightarrow> [])"

text \<open>A field of the \<open>metadata\<close> object of a document.\<close>

definition metaField :: "json jsobj \<Rightarrow> jstring \<Rightarrow> json option" where
  "metaField doc f = (case objGet doc (S ''metadata'') of Some m \<Rightarrow> jget m f | None \<Rightarrow> None)"

text \<open>The non-empty pieces of a split.\<close>

definition runs :: "(jchar \<Rightarrow> bool) \<Rightarrow> jstring \<Rightarrow> jstring list" where
  "runs sep s = filter (\<lambda>p. p \<noteq> []) (splitRuns sep s)"

text \<open>The language of a pattern.\<close>

definition conc :: "jstring set \<Rightarrow> jstring set \<Rightarrow> jstring set" where
  "conc A B = {u @ v | u v. u \<in> A \<and> v \<in> B}"

inductive_set star :: "jstring set \<Rightarrow> jstring set" for A :: "jstring set" where
  star_Nil: "[] \<in> star A"
| star_app: "u \<in> A \<Longrightarrow> v \<in> star A \<Longrightarrow> u @ v \<in> star A"

fun lang :: "regex \<Rightarrow> jstring set" where
  "lang RNone = {}"
| "lang REps = {[]}"
| "lang (RClass rs) = {[c] | c. inClass rs c}"
| "lang (RSeq r s) = conc (lang r) (lang s)"
| "lang (RAlt r s) = lang r \<union> lang s"
| "lang (RStar r) = star (lang r)"
| "lang (RPlus r) = conc (lang r) (star (lang r))"

text \<open>Dotted quads, written out: four non-empty runs of decimal digits separated by
  dots, and the same followed by a slash and a non-empty run of digits.\<close>

definition digits :: "jstring \<Rightarrow> bool" where
  "digits s \<longleftrightarrow> s \<noteq> [] \<and> (\<forall>c\<in>set s. isDigit c)"

definition dottedQuad :: "jstring \<Rightarrow> bool" where
  "dottedQuad s \<longleftrightarrow>
     (\<exists>a b c d. digits a \<and> digits b \<and> digits c \<and> digits d \<and>
        s = a @ [dotChar] @ b @ [dotChar] @ c @ [dotChar] @ d)"

definition dottedQuadPrefix :: "jstring \<Rightarrow> bool" where
  "dottedQuadPrefix s \<longleftrightarrow> (\<exists>q p. dottedQuad q \<and> digits p \<and> s = q @ [slashChar] @ p)"

definition isLetter :: "jchar \<Rightarrow> bool" where
  "isLetter c \<longleftrightarrow> (0x61 \<le> c \<and> c \<le> 0x7A) \<or> (0x41 \<le> c \<and> c \<le> 0x5A)"

text \<open>The classification cascade in the words of the specification.\<close>

definition classify :: "jstring \<Rightarrow> detected" where
  "classify raw =
     (let v = trim raw; items = filter (\<lambda>s. s \<noteq> []) (map trim (runs sepCRLFComma v))
      in if v = [] then TEmpty
         else if length items > 1 \<and> (\<forall>it\<in>set items. dottedQuad it \<or> dottedQuadPrefix it)
         then TCidrList (map (\<lambda>it. if dottedQuad it then it @ S ''/32'' else it) items)
         else if dottedQuadPrefix v then TCidr v
         else if dottedQuad v then TCidr (v @ S ''/32'')
         else if (\<exists>c\<in>set v. isLetter c) \<and> dotChar \<in> set v then TFqdn (toLowerCase v)
         else TLabel v)"

text \<open>A kept label segment cut at its first colon, both sides trimmed.\<close>

definition labelKey :: "jstring \<Rightarrow> jstring" where
  "labelKey p = trim (takeWhile (\<lambda>x. x \<noteq> colonChar) p)"

definition labelValue :: "jstring \<Rightarrow> jstring" where
  "labelValue p = trim (drop 1 (dropWhile (\<lambda>x. x \<noteq> colonChar) p))"

text \<open>The duplicate warnings in the words of the specification: going through the
  rows in order, a row whose signature was borne by an earlier row is paired with the
  first such row.\<close>

fun dupPairs :: "entry list \<Rightarrow> entry list \<Rightarrow> (nat \<times> nat) list" where
  "dupPairs prev [] = []"
| "dupPairs prev (e # es) =
     (case find (\<lambda>p. sigKey p = sigKey e) prev of
        Some f \<Rightarrow> [(rowNum f, rowNum e)]
      | None \<Rightarrow> []) @ dupPairs (prev @ [e]) es"

text \<open>The rows of a table from the third on, with their zero-based positions.\<close>

definition dataRows :: "row list \<Rightarrow> (nat \<times> row) list" where
  "dataRows rows = filter (\<lambda>p. hasData (snd p)) (zip [2 ..< length rows] (drop 2 rows))"

text \<open>A cell that the extraction takes for empty: an absent cell, a text that is blank
  after trimming, the number 0, or \<open>false\<close>.\<close>

fun cellBlank :: "cell \<Rightarrow> bool" where
  "cellBlank Undefined = True"
| "cellBlank (Str s) = (trim s = [])"
| "cellBlank (Num n) = (n = 0)"
| "cellBlank (Bool b) = (\<not> b)"

text \<open>The header cell (row 2, column A), when the table has one.\<close>

definition headerCell :: "row list \<Rightarrow> cell" where
  "headerCell rows = (if length rows \<le> 1 then Undefined else cellAt (rows ! 1) 0)"

section \<open>Splitting\<close>

lemma splitRuns_no_sep: "\<forall>x\<in>set s. \<not> sep x \<Longrightarrow> splitRuns sep s = [s]"
  by (subst splitRuns.simps) (simp add: Let_def)

lemma splitRuns_not_Nil: "splitRuns sep s \<noteq> []"
  by (subst splitRuns.simps) (simp add: Let_def)

lemma runs_sep_Cons: "sep x \<Longrightarrow> runs sep (x # s) = runs sep (dropWhile sep s)"
  unfolding runs_def by (subst splitRuns.simps) (simp add: Let_def)

lemma runs_dropWhile: "runs sep (dropWhile sep s) = runs sep s"
  by (cases s) (simp_all add: runs_sep_Cons)

lemma runs_sep_Cons': "sep x \<Longrightarrow> runs sep (x # s) = runs sep s"
  by (simp add: runs_sep_Cons runs_dropWhile)

lemma runs_Nil: "runs sep [] = []"
  unfolding runs_def by (subst splitRuns.simps) simp

lemma runs_unfold:
  "runs sep s = (if takeWhile (\<lambda>x. \<not> sep x) s = [] then [] else [takeWhile (\<lambda>x. \<not> sep x) s])
                 @ runs sep (dropWhile (\<lambda>x. \<not> sep x) s)"
proof (cases "dropWhile (\<lambda>x. \<not> sep x) s = []")
  case True
  then have all: "\<forall>x\<in>set s. \<not> sep x" by (simp add: dropWhile_eq_Nil_conv)
  then have sp: "splitRuns sep s = [s]" by (rule splitRuns_no_sep)
  have tw: "takeWhile (\<lambda>x. \<not> sep x) s = s" using all by simp
  have "runs sep s = (if s = [] then [] else [s])" by (simp add: runs_def sp)
  then show ?thesis unfolding tw True runs_Nil by simp
next
  case False
  have "splitRuns sep s =
      takeWhile (\<lambda>x. \<not> sep x) s # splitRuns sep (dropWhile sep (dropWhile (\<lambda>x. \<not> sep x) s))"
    using splitRuns.simps [of sep s] False by (simp only: Let_def if_False)
  then have "runs sep s = (if takeWhile (\<lambda>x. \<not> sep x) s = [] then [] else [takeWhile (\<lambda>x. \<not> sep x) s])
      @ runs sep (dropWhile sep (dropWhile (\<lambda>x. \<not> sep x) s))"
    by (simp add: runs_def)
  then show ?thesis by (simp only: runs_dropWhile)
qed

lemma runs_append_sep:
  "sep c \<Longrightarrow> runs sep (a @ c # b) = runs sep a @ runs sep b"
proof (induction a rule: length_induct)
  case (1 a)
  let ?n = "\<lambda>x. \<not> sep x"
  show ?case
  proof (cases "dropWhile ?n a")
    case Nil
    then have all: "\<forall>x\<in>set a. ?n x" by (simp add: dropWhile_eq_Nil_conv)
    then have tw: "takeWhile ?n (a @ c # b) = a" and dw: "dropWhile ?n (a @ c # b) = c # b"
      using 1(2) by (simp_all add: takeWhile_append2 dropWhile_append2)
    have ta: "takeWhile ?n a = a" using all by simp
    have "runs sep (a @ c # b) = (if a = [] then [] else [a]) @ runs sep (c # b)"
      by (subst runs_unfold) (simp add: tw dw)
    moreover have "runs sep a = (if a = [] then [] else [a])"
      by (subst runs_unfold) (simp add: ta Nil runs_Nil)
    ultimately show ?thesis using 1(2) by (simp add: runs_sep_Cons')
  next
    case (Cons y r')
    then have ne: "dropWhile ?n a \<noteq> []" by simp
    have sy: "sep y" using hd_dropWhile [OF ne] Cons by simp
    obtain x where x: "x \<in> set a" "\<not> ?n x"
      using ne by (auto simp: dropWhile_eq_Nil_conv)
    have tw: "takeWhile ?n (a @ c # b) = takeWhile ?n a"
      using x by (simp add: takeWhile_append1)
    have dw: "dropWhile ?n (a @ c # b) = y # r' @ c # b"
      using x Cons by (simp add: dropWhile_append1)
    have len: "length r' < length a"
      using length_dropWhile_le [of ?n a] Cons by simp
    have "runs sep (a @ c # b) = (if takeWhile ?n a = [] then [] else [takeWhile ?n a]) @ runs sep (r' @ c # b)"
      by (subst runs_unfold) (simp add: tw dw runs_sep_Cons' sy)
    moreover have "runs sep a = (if takeWhile ?n a = [] then [] else [takeWhile ?n a]) @ runs sep r'"
      by (subst runs_unfold) (simp add: Cons runs_sep_Cons' sy)
    moreover have "runs sep (r' @ c # b) = runs sep r' @ runs sep b"
      using 1(1) len 1(2) by blast
    ultimately show ?thesis by simp
  qed
qed

lemma trim_Nil [simp]: "trim [] = []" by (simp add: trim_def)

lemma filter_trim_filter:
  "filter (\<lambda>s. s \<noteq> []) (map trim (filter (\<lambda>s. s \<noteq> []) xs)) = filter (\<lambda>s. s \<noteq> []) (map trim xs)"
  by (induction xs) simp_all

lemma filter_trim_runs:
  "filter (\<lambda>s. s \<noteq> []) (map trim (splitRuns sep s)) = filter (\<lambda>s. s \<noteq> []) (map trim (runs sep s))"
  unfolding runs_def by (simp add: filter_trim_filter)


subsection \<open>Objects\<close>

lemma objGet_objSet: "objGet (objSet ob k v) k' = (if k' = k then Some v else objGet ob k')"
  by (induction ob) (auto simp: objGet_def)

subsection \<open>The ports block\<close>

lemma portList_runs:
  "portList p = filter (\<lambda>s. s \<noteq> []) (map trim (runs sepCRLFComma p))"
  by (simp add: portList_def filter_trim_runs)

lemma portList_append:
  "sepCRLFComma c \<Longrightarrow> portList (a @ c # b) = portList a @ portList b"
  by (simp add: portList_runs runs_append_sep)

lemma portList_single:
  "\<forall>x\<in>set s. \<not> sepCRLFComma x \<Longrightarrow> portList s = (if trim s = [] then [] else [trim s])"
  by (simp add: portList_def splitRuns_no_sep)

lemma upperChar_cases:
  "upperChar c = 0x41 \<longleftrightarrow> c = 0x41 \<or> c = 0x61"
  "upperChar c = 0x4E \<longleftrightarrow> c = 0x4E \<or> c = 0x6E"
  "upperChar c = 0x59 \<longleftrightarrow> c = 0x59 \<or> c = 0x79"
  unfolding upperChar_def by (auto simp: diff_eq_eq)

lemma lowerChar_cases:
  "lowerChar c = 0x61 \<longleftrightarrow> c = 0x41 \<or> c = 0x61"
  "lowerChar c = 0x6E \<longleftrightarrow> c = 0x4E \<or> c = 0x6E"
  "lowerChar c = 0x79 \<longleftrightarrow> c = 0x59 \<or> c = 0x79"
  unfolding lowerChar_def by (auto simp: eq_diff_eq [symmetric])

lemma upper_ANY_iff: "toUpperCase p = S ''ANY'' \<longleftrightarrow> toLowerCase p = S ''any''"
  by (auto simp: toUpperCase_def toLowerCase_def S_def map_eq_Cons_conv upperChar_cases lowerChar_cases)

lemma portEntry_eq:
  "portEntry pr pv =
     JObj ((S ''port'', JStr pv) #
           (if pr = [] \<or> toLowerCase pr = S ''any'' then []
            else [(S ''protocol'', JStr (toUpperCase pr))]))"
proof -
  have ne: "S ''port'' \<noteq> S ''protocol''" by (simp add: S_def)
  show ?thesis using ne by (simp add: portEntry_def Let_def upper_ANY_iff)
qed

lemma jget_makeRule_toPorts: "jget (makeRule e) (S ''toPorts'') = Some (JArr [portsBlock e])"
  by (simp add: makeRule_def jget_def Let_def objGet_objSet split: prod.splits)

lemma jget_portsBlock_ports:
  "jget (portsBlock e) (S ''ports'') = Some (JArr (map (portEntry (protocol e)) (portList (port e))))"
  by (simp add: portsBlock_def jget_def Let_def objGet_objSet S_def objGet_def split: option.splits)

lemma portList_80_443: "portList (S ''80,443'') = [S ''80'', S ''443'']"
  by code_simp

text \<open>
  Claim C5. Translation builds the ports block from the port cell: the cell is cut at
  every run of commas, carriage returns and line feeds, the pieces are trimmed and the
  empty ones dropped, and each remaining item gives one port entry, in the order of
  the cell and with repetitions kept (the item list of \<open>a\<close>, a separator, \<open>b\<close> is the
  item list of \<open>a\<close> followed by that of \<open>b\<close>; a cell without a separator is its own
  single item). An entry carries a protocol field, in upper case, exactly when the
  protocol of the row is not empty and is not \<open>ANY\<close> in any mix of cases. The cell
  \<open>80,443\<close> gives the two items \<open>80\<close> and \<open>443\<close> in that order.
\<close>

theorem makeRule_ports_block:
  "jget (makeRule e) (S ''toPorts'') = Some (JArr [portsBlock e]) \<and>
   jget (portsBlock e) (S ''ports'') = Some (JArr (map (portEntry (protocol e)) (portList (port e)))) \<and>
   portEntry pr pv =
     JObj ((S ''port'', JStr pv) #
           (if pr = [] \<or> toLowerCase pr = S ''any'' then []
            else [(S ''protocol'', JStr (toUpperCase pr))])) \<and>
   (sepCRLFComma c \<longrightarrow> portList (a @ c # b) = portList a @ portList b) \<and>
   ((\<forall>x\<in>set s. \<not> sepCRLFComma x) \<longrightarrow> portList s = (if trim s = [] then [] else [trim s])) \<and>
   (port e = S ''80,443'' \<longrightarrow> portList (port e) = [S ''80'', S ''443''])"
  using jget_makeRule_toPorts jget_portsBlock_ports portEntry_eq portList_append portList_single
    portList_80_443 by simp



theorem makeRule_ports_block_witness:
  "sepCRLFComma 0x2C \<and> list_all (\<lambda>x. \<not> sepCRLFComma x) (S ''8080'') \<and>
   jget (makeRule \<lparr>protocol = S ''tcp'', sourceLabel = S ''app:web'', destLabel = S ''app:db'',
                    direction = S ''egress'', port = S ''80,443'', rowNum = 3, rules = None\<rparr>)
     (S ''toPorts'') =
     Some (JArr [JObj [(S ''ports'',
       JArr [JObj [(S ''port'', JStr (S ''80'')), (S ''protocol'', JStr (S ''TCP''))],
             JObj [(S ''port'', JStr (S ''443'')), (S ''protocol'', JStr (S ''TCP''))]])]]) \<and>
   portList (S ''80'' @ 0x2C # S ''443'') = portList (S ''80'') @ portList (S ''443'') \<and>
   portList (S ''8080'') = [S ''8080'']"
proof -
  let ?e = "\<lparr>protocol = S ''tcp'', sourceLabel = S ''app:web'', destLabel = S ''app:db'',
             direction = S ''egress'', port = S ''80,443'', rowNum = 3, rules = None\<rparr>"
  have h1: "sepCRLFComma 0x2C" by (simp add: sepCRLFComma_def)
  have h2: "\<forall>x\<in>set (S ''8080''). \<not> sepCRLFComma x" by (simp add: S_def sepCRLFComma_def)
  have h3: "port ?e = S ''80,443''" by simp
  have t: "trim (S ''8080'') = S ''8080''" "S ''8080'' \<noteq> []" by code_simp+
  have up: "toUpperCase (S ''tcp'') = S ''TCP''" "toLowerCase (S ''tcp'') \<noteq> S ''any''" "S ''tcp'' \<noteq> []"
    by code_simp+
  have pb: "portsBlock ?e = JObj [(S ''ports'', JArr (map (portEntry (S ''tcp'')) (portList (S ''80,443''))))]"
    by (simp add: portsBlock_def)
  note inst = makeRule_ports_block [where e = ?e and pr = "S ''tcp''" and c = "0x2C"
      and a = "S ''80''" and b = "S ''443''" and s = "S ''8080''"]
  have pl: "portList (S ''80,443'') = [S ''80'', S ''443'']" using inst h3 by simp
  have pe: "portEntry (S ''tcp'') pv = JObj [(S ''port'', JStr pv), (S ''protocol'', JStr (S ''TCP''))]" for pv
    using makeRule_ports_block [where pr = "S ''tcp''" and pv = pv] up by simp
  show ?thesis using inst h1 h2 by (simp add: pb pl pe t list_all_iff)
qed

section \<open>Policy documents\<close>

subsection \<open>Enumeration order\<close>

lemma mset_objEntries: "mset (objEntries ob) = mset ob"
  by (simp add: objEntries_def)

lemma set_objEntries: "set (objEntries ob) = set ob"
  by (auto simp: objEntries_def)

lemma length_objEntries: "length (objEntries ob) = length ob"
  using mset_objEntries [of ob] by (metis size_mset)

lemma objEntries_Nil_iff: "objEntries ob = [] \<longleftrightarrow> ob = []"
  using length_objEntries [of ob] by (metis length_0_conv)

lemma objKeys_Nil_iff: "objKeys ob = [] \<longleftrightarrow> ob = []"
  by (simp add: objKeys_def objEntries_Nil_iff)

lemma objValues_Nil_iff: "objValues ob = [] \<longleftrightarrow> ob = []"
  by (simp add: objValues_def objEntries_Nil_iff)

lemma mset_objValues: "mset (objValues ob) = mset (map snd ob)"
  unfolding objValues_def by (metis mset_map mset_objEntries)

lemma objEntries_no_index:
  "\<forall>p\<in>set ob. \<not> isArrayIndex (fst p) \<Longrightarrow> objEntries ob = ob"
  by (simp add: objEntries_def filter_empty_conv)

lemma objValues_no_index:
  "\<forall>p\<in>set ob. \<not> isArrayIndex (fst p) \<Longrightarrow> objValues ob = map snd ob"
  by (simp add: objValues_def objEntries_no_index)

lemma distinct_objEntries: "distinct (map fst ob) \<Longrightarrow> distinct (map fst (objEntries ob))"
proof -
  have "mset (map fst (objEntries ob)) = mset (map fst ob)"
    by (metis mset_map mset_objEntries)
  then show "distinct (map fst ob) \<Longrightarrow> distinct (map fst (objEntries ob))"
    by (metis mset_eq_imp_distinct_iff)
qed

subsection \<open>Buckets\<close>

lemma foldl_bucketStep:
  "foldl bucketStep b ents =
     (fst b @ map makeRule (filter (\<lambda>e. direction e = S ''ingress'') ents),
      snd b @ map makeRule (filter (\<lambda>e. direction e \<noteq> S ''ingress'') ents))"
  by (induction ents arbitrary: b) (simp_all add: bucketStep_def Let_def)

lemma field_names_distinct:
  "S ''ingress'' \<noteq> S ''egress''" "S ''endpointSelector'' \<noteq> S ''ingress''"
  "S ''endpointSelector'' \<noteq> S ''egress''" "S ''egress'' \<noteq> S ''ingress''"
  "S ''ingress'' \<noteq> S ''endpointSelector''" "S ''egress'' \<noteq> S ''endpointSelector''"
  by (simp_all add: S_def)

lemma policySpec_ingress:
  "objGet (policySpec L ents) (S ''ingress'') =
     (if filter (\<lambda>e. direction e = S ''ingress'') ents = [] then None
      else Some (JArr (map makeRule (filter (\<lambda>e. direction e = S ''ingress'') ents))))"
  by (simp add: policySpec_def Let_def foldl_bucketStep objGet_objSet field_names_distinct)
     (simp add: objGet_def field_names_distinct)

lemma policySpec_egress:
  "objGet (policySpec L ents) (S ''egress'') =
     (if filter (\<lambda>e. direction e \<noteq> S ''ingress'') ents = [] then None
      else Some (JArr (map makeRule (filter (\<lambda>e. direction e \<noteq> S ''ingress'') ents))))"
  by (simp add: policySpec_def Let_def foldl_bucketStep objGet_objSet field_names_distinct)
     (simp add: objGet_def field_names_distinct)

lemma policySpec_selector:
  "objGet (policySpec L ents) (S ''endpointSelector'') =
     Some (if L = [] then JObj [] else JObj [(S ''matchLabels'', labelsJson L)])"
  by (simp add: policySpec_def Let_def objGet_objSet field_names_distinct objKeys_Nil_iff)
     (simp add: objGet_def)

lemma buildPolicy_spec:
  "objGet (buildPolicy ns k ents) (S ''spec'') = Some (JObj (policySpec (splitLabels k) ents))"
  by (simp add: buildPolicy_def objGet_def S_def Let_def)

lemma buildPolicy_metadata:
  "objGet (buildPolicy ns k ents) (S ''metadata'') =
     Some (JObj [(S ''name'', JStr (ns @ S ''-'' @
                   (if splitLabels k = [] then S ''default''
                    else join (S ''-'') (objValues (splitLabels k))))),
                 (S ''namespace'', JStr ns)])"
  by (simp add: buildPolicy_def objGet_def S_def policyName_def Let_def objValues_Nil_iff)

lemma specList_ingress:
  "specList (buildPolicy ns k ents) (S ''ingress'') =
     map makeRule (filter (\<lambda>e. direction e = S ''ingress'') ents)"
  by (simp add: specList_def buildPolicy_spec policySpec_ingress)

lemma specList_egress:
  "specList (buildPolicy ns k ents) (S ''egress'') =
     map makeRule (filter (\<lambda>e. direction e \<noteq> S ''ingress'') ents)"
  by (simp add: specList_def buildPolicy_spec policySpec_egress)

lemma splitLabels_Nil: "splitLabels [] = []"
  by code_simp


lemma rowEntry_direction: "direction (rowEntry i r) = trim (toLowerCase (cellOrEmpty (cellAt r 3)))"
  by (simp add: rowEntry_def Let_def)

text \<open>
  Claim C1, as amended. The fragment of a row goes to the ingress list when the
  direction of the row is \<open>ingress\<close> and to the egress list otherwise, in the order of
  the rows. A row whose direction cell is empty is extracted with the empty direction,
  so its fragment is placed in the egress list and not in the ingress list.
\<close>

theorem buildPolicy_buckets:
  "specList (buildPolicy ns k ents) (S ''ingress'') =
     map makeRule (filter (\<lambda>e. direction e = S ''ingress'') ents) \<and>
   specList (buildPolicy ns k ents) (S ''egress'') =
     map makeRule (filter (\<lambda>e. direction e \<noteq> S ''ingress'') ents) \<and>
   (trim (toLowerCase (cellOrEmpty (cellAt r 3))) = [] \<longrightarrow>
      direction (rowEntry i r) = [] \<and>
      specList (buildPolicy ns k [rowEntry i r]) (S ''egress'') = [makeRule (rowEntry i r)] \<and>
      specList (buildPolicy ns k [rowEntry i r]) (S ''ingress'') = [])"
proof -
  have ne: "S ''ingress'' \<noteq> []" by (simp add: S_def)
  show ?thesis
    using ne by (simp add: specList_ingress specList_egress rowEntry_direction)
qed

theorem buildPolicy_buckets_witness:
  "trim (toLowerCase (cellOrEmpty (cellAt
      [Num 1, Str (S ''tcp''), Str (S ''app:web''), Undefined, Str (S ''10.0.0.1''), Num 80] 3))) = [] \<and>
   specList (buildPolicy (S ''ns'') (S ''app:web'')
      [rowEntry 2 [Num 1, Str (S ''tcp''), Str (S ''app:web''), Undefined, Str (S ''10.0.0.1''), Num 80]])
      (S ''egress'') =
     [makeRule (rowEntry 2
        [Num 1, Str (S ''tcp''), Str (S ''app:web''), Undefined, Str (S ''10.0.0.1''), Num 80])] \<and>
   specList (buildPolicy (S ''ns'') (S ''app:web'')
      [rowEntry 2 [Num 1, Str (S ''tcp''), Str (S ''app:web''), Undefined, Str (S ''10.0.0.1''), Num 80]])
      (S ''ingress'') = []"
proof -
  have h: "trim (toLowerCase (cellOrEmpty (cellAt
      [Num 1, Str (S ''tcp''), Str (S ''app:web''), Undefined, Str (S ''10.0.0.1''), Num 80] 3))) = []"
    by code_simp
  show ?thesis
    using h buildPolicy_buckets [where r = "[Num 1, Str (S ''tcp''), Str (S ''app:web''), Undefined,
        Str (S ''10.0.0.1''), Num 80]" and i = 2 and ns = "S ''ns''" and k = "S ''app:web''"]
    by blast
qed

theorem empty_direction_in_egress:
  "cellAt [Num 1, Str (S ''tcp''), Str (S ''app:web''), Undefined, Str (S ''10.0.0.1''), Num 80] 3 = Undefined \<and>
   specList (buildPolicy (S ''ns'') (S ''app:web'')
      [rowEntry 2 [Num 1, Str (S ''tcp''), Str (S ''app:web''), Undefined, Str (S ''10.0.0.1''), Num 80]])
      (S ''egress'') =
     [JObj [(S ''toCIDR'', JArr [JStr (S ''10.0.0.1/32'')]),
            (S ''toPorts'', JArr [JObj [(S ''ports'',
               JArr [JObj [(S ''port'', JStr (S ''80'')), (S ''protocol'', JStr (S ''TCP''))]])]])]]"
  by code_simp


text \<open>
  Claim C8. For a policy group with key \<open>k\<close>, whose parsed labels are \<open>splitLabels k\<close>:
  the \<open>endpointSelector\<close> of the assembled document is \<open>{matchLabels: labels}\<close> when
  there is at least one label and the empty object otherwise; the \<open>ingress\<close> and
  \<open>egress\<close> fields of the spec are absent when the corresponding list of fragments is
  empty and hold the list otherwise; the name is the namespace, \<open>-\<close>, and the label
  values joined by \<open>-\<close> (the values of the labels, each once, in the order of the labels
  when no key is an array index), or the namespace, \<open>-\<close>, \<open>default\<close> when there is no
  label. With an empty group key and one ingress row the selector is the empty object
  and the \<open>egress\<close> field is absent.
\<close>

theorem buildPolicy_document:
  "objGet (buildPolicy ns k ents) (S ''metadata'') =
     Some (JObj [(S ''name'', JStr (ns @ S ''-'' @
                   (if splitLabels k = [] then S ''default''
                    else join (S ''-'') (objValues (splitLabels k))))),
                 (S ''namespace'', JStr ns)]) \<and>
   objGet (buildPolicy ns k ents) (S ''spec'') = Some (JObj (policySpec (splitLabels k) ents)) \<and>
   objGet (policySpec (splitLabels k) ents) (S ''endpointSelector'') =
     Some (if splitLabels k = [] then JObj []
           else JObj [(S ''matchLabels'', labelsJson (splitLabels k))]) \<and>
   objGet (policySpec (splitLabels k) ents) (S ''ingress'') =
     (if filter (\<lambda>e. direction e = S ''ingress'') ents = [] then None
      else Some (JArr (map makeRule (filter (\<lambda>e. direction e = S ''ingress'') ents)))) \<and>
   objGet (policySpec (splitLabels k) ents) (S ''egress'') =
     (if filter (\<lambda>e. direction e \<noteq> S ''ingress'') ents = [] then None
      else Some (JArr (map makeRule (filter (\<lambda>e. direction e \<noteq> S ''ingress'') ents)))) \<and>
   mset (objValues (splitLabels k)) = mset (map snd (splitLabels k)) \<and>
   ((\<forall>p\<in>set (splitLabels k). \<not> isArrayIndex (fst p)) \<longrightarrow>
      objValues (splitLabels k) = map snd (splitLabels k)) \<and>
   (direction e = S ''ingress'' \<longrightarrow>
      objGet (policySpec (splitLabels []) [e]) (S ''endpointSelector'') = Some (JObj []) \<and>
      objGet (policySpec (splitLabels []) [e]) (S ''egress'') = None)"
  by (simp add: buildPolicy_metadata buildPolicy_spec policySpec_selector policySpec_ingress
      policySpec_egress mset_objValues objValues_no_index splitLabels_Nil)

theorem buildPolicy_document_witness:
  "objGet (buildPolicy (S ''ns'') (S ''app:web,env:prod'')
      [\<lparr>protocol = S ''tcp'', sourceLabel = S ''10.1.0.0/16'', destLabel = S ''app:web,env:prod'',
        direction = S ''ingress'', port = S ''443'', rowNum = 3, rules = None\<rparr>]) (S ''metadata'') =
     Some (JObj [(S ''name'', JStr (S ''ns-web-prod'')), (S ''namespace'', JStr (S ''ns''))]) \<and>
   objGet (policySpec (splitLabels (S ''app:web,env:prod''))
      [\<lparr>protocol = S ''tcp'', sourceLabel = S ''10.1.0.0/16'', destLabel = S ''app:web,env:prod'',
        direction = S ''ingress'', port = S ''443'', rowNum = 3, rules = None\<rparr>]) (S ''endpointSelector'') =
     Some (JObj [(S ''matchLabels'',
                  JObj [(S ''app'', JStr (S ''web'')), (S ''env'', JStr (S ''prod''))])]) \<and>
   objGet (policySpec (splitLabels (S ''app:web,env:prod''))
      [\<lparr>protocol = S ''tcp'', sourceLabel = S ''10.1.0.0/16'', destLabel = S ''app:web,env:prod'',
        direction = S ''ingress'', port = S ''443'', rowNum = 3, rules = None\<rparr>]) (S ''egress'') = None \<and>
   objValues (splitLabels (S ''app:web,env:prod'')) = [S ''web'', S ''prod''] \<and>
   objGet (policySpec (splitLabels [])
      [\<lparr>protocol = S ''tcp'', sourceLabel = S ''10.1.0.0/16'', destLabel = [],
        direction = S ''ingress'', port = S ''443'', rowNum = 3, rules = None\<rparr>]) (S ''endpointSelector'') =
     Some (JObj []) \<and>
   objGet (policySpec (splitLabels [])
      [\<lparr>protocol = S ''tcp'', sourceLabel = S ''10.1.0.0/16'', destLabel = [],
        direction = S ''ingress'', port = S ''443'', rowNum = 3, rules = None\<rparr>]) (S ''egress'') = None"
proof -
  let ?e = "\<lparr>protocol = S ''tcp'', sourceLabel = S ''10.1.0.0/16'', destLabel = S ''app:web,env:prod'',
        direction = S ''ingress'', port = S ''443'', rowNum = 3, rules = None\<rparr>"
  let ?e' = "\<lparr>protocol = S ''tcp'', sourceLabel = S ''10.1.0.0/16'', destLabel = [],
        direction = S ''ingress'', port = S ''443'', rowNum = 3, rules = None\<rparr>"
  have sl: "splitLabels (S ''app:web,env:prod'') = [(S ''app'', S ''web''), (S ''env'', S ''prod'')]"
    by code_simp
  have noidx: "\<forall>p\<in>set (splitLabels (S ''app:web,env:prod'')). \<not> isArrayIndex (fst p)"
    unfolding sl by code_simp
  have jn: "S ''ns'' @ S ''-'' @ S ''web'' @ S ''-'' @ S ''prod'' = S ''ns-web-prod''"
    by (simp add: S_def)
  have lj: "labelsJson [(S ''app'', S ''web''), (S ''env'', S ''prod'')] =
      JObj [(S ''app'', JStr (S ''web'')), (S ''env'', JStr (S ''prod''))]"
    by (simp add: labelsJson_def)
  have d: "direction ?e' = S ''ingress''" "filter (\<lambda>e. direction e \<noteq> S ''ingress'') [?e] = []"
    by simp_all
  note a = buildPolicy_document [where ns = "S ''ns''" and k = "S ''app:web,env:prod''"
      and ents = "[?e]" and e = ?e']
  have "objValues (splitLabels (S ''app:web,env:prod'')) = map snd (splitLabels (S ''app:web,env:prod''))"
    using a noidx by blast
  then have vals: "objValues [(S ''app'', S ''web''), (S ''env'', S ''prod'')] = [S ''web'', S ''prod'']"
    by (simp add: sl)
  show ?thesis
    using a d by (simp add: sl vals jn lj)
qed

section \<open>Baseline documents\<close>

subsection \<open>Spread\<close>

lemma objGet_foldl_objSet:
  "objGet (foldl (\<lambda>ob p. objSet ob (fst p) (snd p)) ob0 kvs) k =
     (case map_of (rev kvs) k of Some v \<Rightarrow> Some v | None \<Rightarrow> objGet ob0 k)"
proof (induction kvs arbitrary: ob0)
  case Nil
  then show ?case by simp
next
  case (Cons p kvs)
  show ?case
    by (cases p) (simp add: Cons.IH objGet_objSet map_add_def split: option.splits)
qed

lemma map_of_rev_distinct:
  assumes "distinct (map fst xs)"
  shows "map_of (rev xs) = map_of xs"
proof -
  have "distinct (map fst (rev xs))" using assms by (simp add: rev_map [symmetric])
  then show ?thesis using assms by (simp add: map_of_inject_set)
qed

lemma map_of_objEntries:
  assumes "distinct (map fst ob)"
  shows "map_of (objEntries ob) = map_of ob"
  using assms distinct_objEntries [OF assms] by (simp add: map_of_inject_set set_objEntries)

lemma objGet_objSpread:
  assumes "distinct (map fst src)"
  shows "objGet (objSpread [] src) k = objGet src k"
proof -
  have "map_of (rev (objEntries src)) = map_of src"
    using map_of_rev_distinct [OF distinct_objEntries [OF assms]] map_of_objEntries [OF assms]
    by simp
  then show ?thesis
    by (simp add: objSpread_def objGet_foldl_objSet) (simp add: objGet_def split: option.splits)
qed

text \<open>
  Claim C4, as amended. For every loaded baseline document (an object, whose keys are
  distinct), the emitted copy has \<open>metadata\<close> equal to exactly
  \<open>{name: '<namespace>-default', namespace: <namespace>}\<close>, so any other field of the
  baseline \<open>metadata\<close> is dropped, and every top-level field other than \<open>metadata\<close> is
  unchanged. In the document list of a run, the baseline copies come first and are
  rewritten to the namespace of the table.
\<close>

theorem defaultPolicy_rewrite:
  "distinct (map fst doc) \<Longrightarrow>
   objGet (defaultPolicy ns doc) (S ''metadata'') =
     Some (JObj [(S ''name'', JStr (ns @ S ''-default'')), (S ''namespace'', JStr ns)]) \<and>
   (k \<noteq> S ''metadata'' \<longrightarrow> objGet (defaultPolicy ns doc) k = objGet doc k) \<and>
   (mainDocs dd rows = Inr (ws, docs) \<longrightarrow>
      (\<exists>p. parseExcel rows = Inr p \<and> take (length dd) docs = map (defaultPolicy (namespace p)) dd))"
  by (auto simp: defaultPolicy_def objGet_objSet objGet_objSpread mainDocs_def
      split: sum.splits if_splits)

theorem defaultPolicy_rewrite_witness:
  "distinct (map fst [(S ''kind'', JStr (S ''CiliumNetworkPolicy'')),
                      (S ''metadata'', JObj [(S ''name'', JStr (S ''base''))])]) \<and>
   objGet (defaultPolicy (S ''billing'')
             [(S ''kind'', JStr (S ''CiliumNetworkPolicy'')),
              (S ''metadata'', JObj [(S ''name'', JStr (S ''base''))])]) (S ''metadata'') =
     Some (JObj [(S ''name'', JStr (S ''billing-default'')), (S ''namespace'', JStr (S ''billing''))]) \<and>
   objGet (defaultPolicy (S ''billing'')
             [(S ''kind'', JStr (S ''CiliumNetworkPolicy'')),
              (S ''metadata'', JObj [(S ''name'', JStr (S ''base''))])]) (S ''kind'') =
     Some (JStr (S ''CiliumNetworkPolicy''))"
proof -
  let ?doc = "[(S ''kind'', JStr (S ''CiliumNetworkPolicy'')),
               (S ''metadata'', JObj [(S ''name'', JStr (S ''base''))])]"
  have d: "distinct (map fst ?doc)" by (simp add: S_def)
  have k: "S ''kind'' \<noteq> S ''metadata''" by (simp add: S_def)
  have n: "S ''billing'' @ S ''-default'' = S ''billing-default''" by (simp add: S_def)
  have g: "objGet ?doc (S ''kind'') = Some (JStr (S ''CiliumNetworkPolicy''))"
    by (simp add: objGet_def)
  show ?thesis
    using defaultPolicy_rewrite [OF d, where ns = "S ''billing''" and k = "S ''kind''"] d k n g
    by simp
qed

theorem baseline_metadata_labels_dropped:
  "metaField [(S ''metadata'', JObj [(S ''name'', JStr (S ''base'')),
                                    (S ''labels'', JObj [(S ''tier'', JStr (S ''core''))])]),
              (S ''spec'', JObj [])] (S ''labels'') =
     Some (JObj [(S ''tier'', JStr (S ''core''))]) \<and>
   metaField (defaultPolicy (S ''billing'')
      [(S ''metadata'', JObj [(S ''name'', JStr (S ''base'')),
                              (S ''labels'', JObj [(S ''tier'', JStr (S ''core''))])]),
       (S ''spec'', JObj [])]) (S ''labels'') = None"
  by code_simp

section \<open>The duplicate check\<close>

subsection \<open>Signatures and the duplicate check\<close>

lemma sigKey_has_bar: "barChar \<in> set (sigKey e)"
  by (simp add: sigKey_def)

lemma sigKey_not_inherited: "\<not> inherited (sigKey e)"
proof
  assume "inherited (sigKey e)"
  then have "sigKey e \<in> set protoNames" by (simp add: inherited_def)
  moreover have "\<forall>n\<in>set protoNames. barChar \<notin> set n"
    by (simp add: protoNames_def S_def barChar_def)
  ultimately show False using sigKey_has_bar by blast
qed

lemma find_snoc:
  "find P (xs @ [x]) = (case find P xs of Some y \<Rightarrow> Some y | None \<Rightarrow> if P x then Some x else None)"
  by (induction xs) simp_all

lemma dupStep_eq:
  assumes inv: "\<And>k. objGet seen k = map_option rowNum (find (\<lambda>p. sigKey p = k) prev)"
    and pos: "\<forall>p\<in>set prev. 0 < rowNum p"
  shows "snd (dupStep (seen, dups) e) =
           dups @ (case find (\<lambda>p. sigKey p = sigKey e) prev of
                     Some f \<Rightarrow> [(rowNum f, rowNum e)] | None \<Rightarrow> [])"
    and "objGet (fst (dupStep (seen, dups) e)) k =
           map_option rowNum (find (\<lambda>p. sigKey p = k) (prev @ [e]))"
proof -
  show "snd (dupStep (seen, dups) e) =
           dups @ (case find (\<lambda>p. sigKey p = sigKey e) prev of
                     Some f \<Rightarrow> [(rowNum f, rowNum e)] | None \<Rightarrow> [])"
  proof (cases "find (\<lambda>p. sigKey p = sigKey e) prev")
    case None
    then show ?thesis by (simp add: dupStep_def Let_def inv)
  next
    case (Some f)
    then have "f \<in> set prev" by (auto simp: find_Some_iff)
    then have "rowNum f \<noteq> 0" using pos by auto
    then show ?thesis using Some by (simp add: dupStep_def Let_def inv)
  qed
  show "objGet (fst (dupStep (seen, dups) e)) k =
           map_option rowNum (find (\<lambda>p. sigKey p = k) (prev @ [e]))"
  proof (cases "find (\<lambda>p. sigKey p = sigKey e) prev")
    case None
    then show ?thesis
      by (simp add: dupStep_def Let_def inv objGet_objSet find_snoc split: option.splits)
  next
    case (Some f)
    then have "f \<in> set prev" by (auto simp: find_Some_iff)
    then have "rowNum f \<noteq> 0" using pos by auto
    then show ?thesis using Some
      by (auto simp: dupStep_def Let_def inv find_snoc split: option.splits)
  qed
qed

lemma foldl_dupStep:
  assumes "\<forall>e\<in>set es. 0 < rowNum e"
    and "\<And>k. objGet seen k = map_option rowNum (find (\<lambda>p. sigKey p = k) prev)"
    and "\<forall>p\<in>set prev. 0 < rowNum p"
  shows "snd (foldl dupStep (seen, dups) es) = dups @ dupPairs prev es"
  using assms
proof (induction es arbitrary: seen dups prev)
  case Nil
  then show ?case by simp
next
  case (Cons e es)
  obtain seen' dups' where st: "dupStep (seen, dups) e = (seen', dups')"
    by (cases "dupStep (seen, dups) e") auto
  have d: "dups' = dups @ (case find (\<lambda>p. sigKey p = sigKey e) prev of
                     Some f \<Rightarrow> [(rowNum f, rowNum e)] | None \<Rightarrow> [])"
    using dupStep_eq(1) [OF Cons.prems(2) Cons.prems(3), of dups e] st by simp
  have i: "\<And>k. objGet seen' k = map_option rowNum (find (\<lambda>p. sigKey p = k) (prev @ [e]))"
    using dupStep_eq(2) [OF Cons.prems(2) Cons.prems(3), of dups e] st by simp
  have p: "\<forall>p\<in>set (prev @ [e]). 0 < rowNum p" using Cons.prems(1,3) by auto
  have r: "\<forall>e\<in>set es. 0 < rowNum e" using Cons.prems(1) by simp
  have "snd (foldl dupStep (seen', dups') es) = dups' @ dupPairs (prev @ [e]) es"
    using Cons.IH [OF r i p] .
  then show ?case by (simp add: st d)
qed

lemma validate_eq:
  assumes "\<forall>e\<in>set es. 0 < rowNum e"
  shows "validate es =
     (if filter hasCyrillic es \<noteq> [] then Inl (CyrillicRows (map rowNum (filter hasCyrillic es)))
      else Inr (dupPairs [] es))"
proof -
  have "snd (foldl dupStep ([], []) es) = [] @ dupPairs [] es"
    by (rule foldl_dupStep [OF assms]) (simp_all add: objGet_def)
  then show ?thesis by (simp add: validate_def Let_def)
qed

lemma dupPairs_index:
  "dupPairs prev es =
     concat (map (\<lambda>j. case find (\<lambda>p. sigKey p = sigKey (es ! j)) (prev @ take j es) of
                         Some f \<Rightarrow> [(rowNum f, rowNum (es ! j))] | None \<Rightarrow> [])
                 [0 ..< length es])"
proof (induction es arbitrary: prev)
  case Nil
  then show ?case by simp
next
  case (Cons e es)
  have "[0 ..< length (e # es)] = 0 # map Suc [0 ..< length es]"
    by (simp add: upt_conv_Cons map_Suc_upt del: upt_Suc)
  then show ?case
    by (simp add: Cons.IH comp_def del: upt_Suc cong: option.case_cong)
qed

lemma dupPairs_distinct:
  "distinct (map sigKey (prev @ es)) \<Longrightarrow> dupPairs prev es = []"
proof (induction es arbitrary: prev)
  case Nil
  then show ?case by simp
next
  case (Cons e es)
  have "sigKey e \<notin> sigKey ` set prev" using Cons.prems by auto
  then have "\<forall>x\<in>set prev. sigKey x \<noteq> sigKey e" by (metis imageI)
  then have "find (\<lambda>p. sigKey p = sigKey e) prev = None"
    by (simp add: find_None_iff)
  moreover have "dupPairs (prev @ [e]) es = []"
    using Cons.prems by (intro Cons.IH) simp
  ultimately show ?case by simp
qed

lemma join_bar_inject:
  assumes "barChar \<notin> set a" "barChar \<notin> set a'"
  shows "a @ barChar # r = a' @ barChar # r' \<longleftrightarrow> a = a' \<and> r = r'"
proof
  assume eq: "a @ barChar # r = a' @ barChar # r'"
  have "takeWhile (\<lambda>c. c \<noteq> barChar) (a @ barChar # r) = a"
    using assms(1) by (induction a) auto
  moreover have "takeWhile (\<lambda>c. c \<noteq> barChar) (a' @ barChar # r') = a'"
    using assms(2) by (induction a') auto
  ultimately have "a = a'" using eq by simp
  then show "a = a' \<and> r = r'" using eq by simp
qed simp

lemma sigKey_inject:
  assumes "barChar \<notin> set (direction e1 @ sourceLabel e1 @ destLabel e1 @ port e1)"
    and "barChar \<notin> set (direction e2 @ sourceLabel e2 @ destLabel e2 @ port e2)"
  shows "sigKey e1 = sigKey e2 \<longleftrightarrow>
     direction e1 = direction e2 \<and> sourceLabel e1 = sourceLabel e2 \<and> destLabel e1 = destLabel e2 \<and>
     port e1 = port e2 \<and>
     toUpperCase (if protocol e1 \<noteq> [] then protocol e1 else S ''ANY'') =
     toUpperCase (if protocol e2 \<noteq> [] then protocol e2 else S ''ANY'')"
  using assms by (simp add: sigKey_def join_bar_inject)

section \<open>Extraction\<close>

subsection \<open>Trimming\<close>

lemma trim_eq_Nil_iff: "trim s = [] \<longleftrightarrow> (\<forall>c\<in>set s. isWhiteSpace c)"
proof
  assume "trim s = []"
  then have a: "\<forall>c\<in>set (dropWhile isWhiteSpace s). isWhiteSpace c"
    by (simp add: trim_def dropWhile_eq_Nil_conv)
  have "dropWhile isWhiteSpace s = []"
  proof (rule ccontr)
    assume ne: "dropWhile isWhiteSpace s \<noteq> []"
    then have "\<not> isWhiteSpace (hd (dropWhile isWhiteSpace s))" by (rule hd_dropWhile)
    moreover have "hd (dropWhile isWhiteSpace s) \<in> set (dropWhile isWhiteSpace s)"
      using ne by simp
    ultimately show False using a by blast
  qed
  then show "\<forall>c\<in>set s. isWhiteSpace c" by (simp add: dropWhile_eq_Nil_conv)
next
  assume "\<forall>c\<in>set s. isWhiteSpace c"
  then have d: "dropWhile isWhiteSpace s = []" by (simp add: dropWhile_eq_Nil_conv)
  show "trim s = []" unfolding trim_def d by simp
qed

lemma isWhiteSpace_lowerChar: "isWhiteSpace (lowerChar c) \<longleftrightarrow> isWhiteSpace c"
proof (cases "0x41 \<le> c \<and> c \<le> 0x5A")
  case False
  then have "lowerChar c = c" unfolding lowerChar_def by (simp only: if_False)
  then show ?thesis by simp
next
  case True
  then have u: "0x41 \<le> unat c" "unat c \<le> 0x5A"
    by (simp_all add: word_le_nat_alt)
  then have "unat (c + 0x20) = unat c + 0x20"
    by (simp add: unat_word_ariths)
  then have v: "0x61 \<le> unat (c + 0x20)" "unat (c + 0x20) \<le> 0x7A" using u by simp_all
  have "\<not> isWhiteSpace d" if "0x41 \<le> unat d" "unat d \<le> 0x7A" for d :: jchar
  proof
    assume "isWhiteSpace d"
    then have "unat d \<in> {0x09, 0x0A, 0x0B, 0x0C, 0x0D, 0x20, 0xA0, 0x1680, 0x2028, 0x2029,
        0x202F, 0x205F, 0x3000, 0xFEFF} \<or> 0x2000 \<le> unat d"
      unfolding isWhiteSpace_def by (auto simp: word_le_nat_alt)
    then show False using that by auto
  qed
  from this [of c] this [of "c + 0x20"] u v True show ?thesis
    by (simp add: lowerChar_def)
qed

lemma trim_toLowerCase_Nil: "trim (toLowerCase s) = [] \<longleftrightarrow> trim s = []"
  by (simp add: trim_eq_Nil_iff toLowerCase_def isWhiteSpace_lowerChar)

subsection \<open>Rows\<close>

lemma trim_cellOrEmpty:
  "trim (cellOrEmpty c) \<noteq> [] \<longleftrightarrow> cellTruthy c \<and> trim (cellString c) \<noteq> []"
  by (simp add: cellOrEmpty_def)

lemma ex_less_5: "(\<exists>i<5::nat. A i) \<longleftrightarrow> A 0 \<or> A 1 \<or> A 2 \<or> A 3 \<or> A 4"
proof -
  have *: "i < 5 \<longleftrightarrow> i = 0 \<or> i = 1 \<or> i = 2 \<or> i = 3 \<or> i = 4" for i :: nat by arith
  show ?thesis unfolding * by blast
qed

lemma ex_less_5_Suc:
  "(\<exists>i<5::nat. A (Suc i)) \<longleftrightarrow> A 1 \<or> A 2 \<or> A 3 \<or> A 4 \<or> A 5"
proof -
  have e: "Suc 0 = 1" "Suc 1 = 2" "Suc 2 = 3" "Suc 3 = 4" "Suc 4 = 5" by simp_all
  show ?thesis using ex_less_5 [of "\<lambda>i. A (Suc i)"] unfolding e .
qed

lemma hasData_cells:
  "hasData r \<longleftrightarrow>
     trim (cellOrEmpty (cellAt r 1)) \<noteq> [] \<or> trim (cellOrEmpty (cellAt r 2)) \<noteq> [] \<or>
     trim (cellOrEmpty (cellAt r 3)) \<noteq> [] \<or> trim (cellOrEmpty (cellAt r 4)) \<noteq> [] \<or>
     trim (cellOrEmpty (cellAt r 5)) \<noteq> []"
proof -
  let ?P = "\<lambda>c. cellTruthy c \<and> trim (cellString c) \<noteq> []"
  have "hasData r \<longleftrightarrow> (\<exists>i<5. Suc i < length r \<and> ?P (r ! Suc i))"
    unfolding hasData_def list_ex_length by (auto simp: less_diff_conv)
  also have "\<dots> \<longleftrightarrow> (\<exists>i<5. ?P (cellAt r (Suc i)))"
    by (auto simp: cellAt_def)
  finally have a: "hasData r \<longleftrightarrow> (\<exists>i<5. ?P (cellAt r (Suc i)))" .
  have b: "(\<exists>i<5. ?P (cellAt r (Suc i))) \<longleftrightarrow> ?P (cellAt r 1) \<or> ?P (cellAt r 2) \<or>
      ?P (cellAt r 3) \<or> ?P (cellAt r 4) \<or> ?P (cellAt r 5)"
    by (rule ex_less_5_Suc [of "\<lambda>k. ?P (cellAt r k)"])
  from a b have "hasData r \<longleftrightarrow> ?P (cellAt r 1) \<or> ?P (cellAt r 2) \<or>
      ?P (cellAt r 3) \<or> ?P (cellAt r 4) \<or> ?P (cellAt r 5)"
    by (rule trans)
  then show ?thesis
    by (simp add: trim_cellOrEmpty)
qed

lemma hasData_fields:
  "hasData r \<longleftrightarrow>
     \<not> (protocol (rowEntry i r) = [] \<and> sourceLabel (rowEntry i r) = [] \<and>
        destLabel (rowEntry i r) = [] \<and> direction (rowEntry i r) = [] \<and>
        port (rowEntry i r) = [])"
proof (cases "trim (toLowerCase (cellOrEmpty (cellAt r 3))) = S ''ingress''")
  case True
  have ne: "S ''ingress'' \<noteq> []" by (simp add: S_def)
  then have "trim (toLowerCase (cellOrEmpty (cellAt r 3))) \<noteq> []" using True by simp
  then have "trim (cellOrEmpty (cellAt r 3)) \<noteq> []" by (simp add: trim_toLowerCase_Nil)
  then show ?thesis using True ne by (simp add: hasData_cells rowEntry_def Let_def)
next
  case False
  then show ?thesis
    by (auto simp: hasData_cells rowEntry_def Let_def trim_toLowerCase_Nil)
qed

lemma digit_not_white: "k < 10 \<Longrightarrow> \<not> isWhiteSpace (0x30 + of_nat k)"
proof -
  assume "k < 10"
  then have "k = 0 \<or> k = 1 \<or> k = 2 \<or> k = 3 \<or> k = 4 \<or> k = 5 \<or> k = 6 \<or> k = 7 \<or> k = 8 \<or> k = 9"
    by arith
  then show ?thesis by (elim disjE) (simp_all add: isWhiteSpace_def)
qed

lemma showNat_last: "\<exists>k<10. \<exists>xs. showNat n = xs @ [0x30 + of_nat k]"
proof (cases "n < 10")
  case True
  then have "showNat n = [] @ [0x30 + of_nat n]" by (simp add: showNat.simps [of n])
  then show ?thesis using True by blast
next
  case False
  then have "showNat n = showNat (n div 10) @ [0x30 + of_nat (n mod 10)]"
    by (simp add: showNat.simps [of n])
  moreover have "n mod 10 < 10" by simp
  ultimately show ?thesis by blast
qed

lemma trim_showNat: "trim (xs @ showNat n) \<noteq> []"
proof -
  obtain k ys where k: "k < 10" and s: "showNat n = ys @ [0x30 + of_nat k]"
    using showNat_last [of n] by blast
  have "0x30 + of_nat k \<in> set (xs @ showNat n)" unfolding s by simp
  then show ?thesis using digit_not_white [OF k] unfolding trim_eq_Nil_iff by blast
qed

lemma trim_cellString_Num: "trim (cellString (Num n)) \<noteq> []"
  using trim_showNat [of "[]"] trim_showNat [of "S ''-''"] by simp

lemma cellBlank_iff: "cellBlank c \<longleftrightarrow> \<not> (cellTruthy c \<and> trim (cellString c) \<noteq> [])"
proof (cases c)
  case Undefined
  then show ?thesis by simp
next
  case (Str s)
  have "trim ([] :: jstring) = []" by (simp add: trim_def)
  then show ?thesis using Str by auto
next
  case (Num n)
  then show ?thesis using trim_cellString_Num [of n] by simp
next
  case (Bool b)
  have "trim (S ''true'') \<noteq> []" by code_simp
  then show ?thesis using Bool by simp
qed

lemma hasData_blank:
  "hasData r \<longleftrightarrow>
     \<not> (cellBlank (cellAt r 1) \<and> cellBlank (cellAt r 2) \<and> cellBlank (cellAt r 3) \<and>
        cellBlank (cellAt r 4) \<and> cellBlank (cellAt r 5))"
  unfolding hasData_cells trim_cellOrEmpty cellBlank_iff by blast

lemma parseRows_result:
  "parseRows i rs st = Inr st' \<Longrightarrow>
     entries st' = entries st @
       map (\<lambda>p. rowEntry (fst p) (snd p))
         (filter (\<lambda>p. hasData (snd p)) (zip [i ..< i + length rs] rs)) \<and>
     missingNums st' = missingNums st @
       map (\<lambda>p. fst p + 1)
         (filter (\<lambda>p. hasData (snd p) \<and> \<not> cellTruthy (cellAt (snd p) 0))
            (zip [i ..< i + length rs] rs)) \<and>
     namespace st' = namespace st"
proof (induction rs arbitrary: i st)
  case Nil
  then show ?case by simp
next
  case (Cons r rs)
  have z: "zip [i ..< i + length (r # rs)] (r # rs) = (i, r) # zip [Suc i ..< Suc i + length rs] rs"
    by (simp add: upt_conv_Cons del: upt_Suc)
  show ?case
  proof (cases "hasData r")
    case False
    then have "parseRows (Suc i) rs st = Inr st'" using Cons.prems by simp
    from Cons.IH [OF this] False show ?thesis unfolding z by simp
  next
    case True
    let ?st1 = "(if \<not> cellTruthy (cellAt r 0) then st\<lparr>missingNums := missingNums st @ [i + 1]\<rparr> else st)"
    from Cons.prems True obtain g where
      g: "groupsPush (groups ?st1) (rowGroupKey r) (rowEntry i r) = Inr g"
      and rest: "parseRows (Suc i) rs (?st1\<lparr>entries := entries ?st1 @ [rowEntry i r], groups := g\<rparr>) = Inr st'"
      by (auto simp: Let_def split: sum.splits if_splits)
    from Cons.IH [OF rest] True show ?thesis unfolding z by (simp split: if_splits)
  qed
qed

lemma groupsPush_returns:
  "\<not> inherited k \<Longrightarrow> \<exists>g'. groupsPush g k e = Inr g'"
  by (simp add: groupsPush_def split: option.splits)

lemma parseRows_returns:
  "\<forall>r\<in>set rs. hasData r \<longrightarrow> \<not> inherited (rowGroupKey r) \<Longrightarrow> \<exists>st'. parseRows i rs st = Inr st'"
proof (induction rs arbitrary: i st)
  case Nil
  then show ?case by simp
next
  case (Cons r rs)
  then have IH: "\<And>i st. \<exists>st'. parseRows i rs st = Inr st'" by simp
  show ?case
  proof (cases "hasData r")
    case False
    then show ?thesis using IH by simp
  next
    case True
    then have "\<not> inherited (rowGroupKey r)" using Cons.prems by simp
    then obtain g where "groupsPush (groups (if \<not> cellTruthy (cellAt r 0)
        then st\<lparr>missingNums := missingNums st @ [i + 1]\<rparr> else st)) (rowGroupKey r) (rowEntry i r) = Inr g"
      using groupsPush_returns by blast
    then show ?thesis using True IH by (simp add: Let_def)
  qed
qed

section \<open>The header and the rows\<close>

subsection \<open>Cutting at a character\<close>

lemma splitStr_unfold:
  "splitStr c s =
     (if dropWhile (\<lambda>x. x \<noteq> c) s = [] then [takeWhile (\<lambda>x. x \<noteq> c) s]
      else takeWhile (\<lambda>x. x \<noteq> c) s # splitStr c (tl (dropWhile (\<lambda>x. x \<noteq> c) s)))"
  using splitStr.simps [of c s] unfolding Let_def .

lemma splitStr_no_sep:
  assumes "dropWhile (\<lambda>x. x \<noteq> c) s = []"
  shows "splitStr c s = [s]"
proof -
  have "takeWhile (\<lambda>x. x \<noteq> c) s = s" using assms by (simp add: dropWhile_eq_Nil_conv)
  then show ?thesis using splitStr_unfold [of c s] by (simp only: assms if_True simp_thms)
qed

lemma splitStr_sep:
  assumes "dropWhile (\<lambda>x. x \<noteq> c) s \<noteq> []"
  shows "splitStr c s =
     takeWhile (\<lambda>x. x \<noteq> c) s # splitStr c (tl (dropWhile (\<lambda>x. x \<noteq> c) s))"
  using splitStr_unfold [of c s] by (simp only: assms if_False)

lemma splitStr_not_Nil: "splitStr c s \<noteq> []"
proof (cases "dropWhile (\<lambda>x. x \<noteq> c) s = []")
  case True
  show ?thesis using splitStr_no_sep [OF True] by simp
next
  case False
  show ?thesis using splitStr_sep [OF False] by simp
qed

lemma join_Cons: "join sep (x # xs) = (if xs = [] then x else x @ sep @ join sep xs)"
  by (cases xs) simp_all

lemma join_splitStr: "join [c] (splitStr c s) = s"
proof (induction s rule: length_induct)
  case (1 s)
  let ?r = "dropWhile (\<lambda>x. x \<noteq> c) s"
  show ?case
  proof (cases "?r = []")
    case True
    show ?thesis by (simp only: splitStr_no_sep [OF True]) simp
  next
    case False
    then have hd: "hd ?r = c" using hd_dropWhile [of "\<lambda>x. x \<noteq> c" s] by simp
    have "length (tl ?r) < length s"
      using False length_dropWhile_le [of "\<lambda>x. x \<noteq> c" s] by (cases ?r) simp_all
    then have IH: "join [c] (splitStr c (tl ?r)) = tl ?r" using 1 by blast
    have "join [c] (splitStr c s) = takeWhile (\<lambda>x. x \<noteq> c) s @ [c] @ tl ?r"
      by (simp only: splitStr_sep [OF False] join_Cons splitStr_not_Nil if_False IH)
    also have "[c] @ tl ?r = ?r" using False hd by (cases ?r) simp_all
    finally show ?thesis by simp
  qed
qed

lemma join_tail_splitStr:
  "join [c] (drop 1 (splitStr c s)) = drop 1 (dropWhile (\<lambda>x. x \<noteq> c) s)"
proof (cases "dropWhile (\<lambda>x. x \<noteq> c) s = []")
  case True
  show ?thesis by (simp only: splitStr_no_sep [OF True] True) simp
next
  case False
  show ?thesis
    by (simp only: splitStr_sep [OF False]) (simp add: join_splitStr drop_Suc)
qed

subsection \<open>The header\<close>

lemma falsy_cell_no_colon:
  "\<not> cellTruthy c \<Longrightarrow> c = Undefined \<or> \<not> includesChar (trim (cellString c)) colonChar"
proof (cases c)
  case (Num n)
  assume "\<not> cellTruthy c"
  then have "n = 0" using Num by simp
  moreover have "\<not> includesChar (trim (cellString (Num 0))) colonChar" by code_simp
  ultimately show ?thesis using Num by simp
next
  case (Bool b)
  assume "\<not> cellTruthy c"
  then have "\<not> b" using Bool by simp
  moreover have "\<not> includesChar (trim (cellString (Bool False))) colonChar" by code_simp
  ultimately show ?thesis using Bool by simp
qed (auto simp: includesChar_def)

lemma parseExcel_header_error:
  "(parseExcel rows = Inl NamespaceNotFound \<or> parseExcel rows = Inl NamespaceBadFormat) \<longleftrightarrow>
   (headerCell rows = Undefined \<or> \<not> includesChar (trim (cellString (headerCell rows))) colonChar)"
proof (cases "length rows \<le> 1 \<or> \<not> cellTruthy (cellAt (rows ! 1) 0)")
  case True
  then have "parseExcel rows = Inl NamespaceNotFound" by (simp add: parseExcel_def)
  moreover have "headerCell rows = Undefined \<or>
      \<not> includesChar (trim (cellString (headerCell rows))) colonChar"
    using True falsy_cell_no_colon [of "cellAt (rows ! 1) 0"] by (auto simp: headerCell_def)
  ultimately show ?thesis by simp
next
  case False
  then have h: "headerCell rows = cellAt (rows ! 1) 0" "headerCell rows \<noteq> Undefined"
    by (auto simp: headerCell_def)
  show ?thesis
  proof (cases "includesChar (trim (cellString (headerCell rows))) colonChar")
    case True
    have "parseExcel rows = parseRows 2 (drop 2 rows)
        \<lparr>namespace = trim (join [colonChar] (drop 1 (splitStr colonChar (trim (cellString (headerCell rows)))))),
         groups = [], entries = [], missingNums = []\<rparr>"
      using False True h by (simp add: parseExcel_def Let_def)
    moreover have "parseRows i rs st \<noteq> Inl NamespaceNotFound \<and> parseRows i rs st \<noteq> Inl NamespaceBadFormat"
      for i rs st
      by (induction rs arbitrary: i st)
         (auto simp: Let_def groupsPush_def split: sum.splits option.splits if_splits)
    ultimately have "parseExcel rows \<noteq> Inl NamespaceNotFound \<and> parseExcel rows \<noteq> Inl NamespaceBadFormat"
      by simp
    then show ?thesis using True h by simp
  next
    case F: False
    then have "parseExcel rows = Inl NamespaceBadFormat"
      using False h by (simp add: parseExcel_def Let_def)
    then show ?thesis using F by simp
  qed
qed


lemma parseRows_no_header_error:
  "parseRows i rs st \<noteq> Inl NamespaceNotFound \<and> parseRows i rs st \<noteq> Inl NamespaceBadFormat"
  by (induction rs arbitrary: i st)
     (auto simp: Let_def groupsPush_def split: sum.splits option.splits if_splits)

lemma parseExcel_Inr:
  assumes "parseExcel rows = Inr p"
  shows "1 < length rows" and "headerCell rows = cellAt (rows ! 1) 0"
    and "cellTruthy (headerCell rows)"
    and "includesChar (trim (cellString (headerCell rows))) colonChar"
    and "parseRows 2 (drop 2 rows)
           \<lparr>namespace = trim (join [colonChar]
              (drop 1 (splitStr colonChar (trim (cellString (headerCell rows)))))),
            groups = [], entries = [], missingNums = []\<rparr> = Inr p"
  using assms by (auto simp: parseExcel_def headerCell_def Let_def split: if_splits)

lemma parseExcel_namespace:
  assumes "parseExcel rows = Inr p"
  shows "namespace p =
     trim (drop 1 (dropWhile (\<lambda>x. x \<noteq> colonChar) (trim (cellString (headerCell rows)))))"
proof -
  have n: "namespace p =
      trim (join [colonChar] (drop 1 (splitStr colonChar (trim (cellString (headerCell rows))))))"
    using parseRows_result [OF parseExcel_Inr(5) [OF assms]] by (simp del: upt_Suc)
  show ?thesis unfolding n join_tail_splitStr by (rule refl)
qed

lemma parseExcel_entries:
  assumes "parseExcel rows = Inr p"
  shows "entries p = map (\<lambda>q. rowEntry (fst q) (snd q)) (dataRows rows)"
    and "missingNums p =
       map (\<lambda>q. fst q + 1) (filter (\<lambda>q. \<not> cellTruthy (cellAt (snd q) 0)) (dataRows rows))"
proof -
  have len: "2 + length (drop 2 rows) = length rows"
    using parseExcel_Inr(1) [OF assms] by simp
  note r = parseRows_result [OF parseExcel_Inr(5) [OF assms], unfolded len]
  show "entries p = map (\<lambda>q. rowEntry (fst q) (snd q)) (dataRows rows)"
    using r by (simp add: dataRows_def)
  have "filter (\<lambda>q. \<not> cellTruthy (cellAt (snd q) 0)) (dataRows rows) =
      filter (\<lambda>p. hasData (snd p) \<and> \<not> cellTruthy (cellAt (snd p) 0))
        (zip [2 ..< length rows] (drop 2 rows))"
    by (simp add: dataRows_def conj_commute)
  then show "missingNums p =
       map (\<lambda>q. fst q + 1) (filter (\<lambda>q. \<not> cellTruthy (cellAt (snd q) 0)) (dataRows rows))"
    using r by simp
qed

lemma parseExcel_returns:
  assumes "headerCell rows \<noteq> Undefined"
    and "includesChar (trim (cellString (headerCell rows))) colonChar"
    and "\<forall>r\<in>set (drop 2 rows). hasData r \<longrightarrow> \<not> inherited (rowGroupKey r)"
  shows "\<exists>p. parseExcel rows = Inr p"
proof -
  have len: "\<not> length rows \<le> 1" using assms(1) by (auto simp: headerCell_def)
  then have h: "headerCell rows = cellAt (rows ! 1) 0" by (simp add: headerCell_def)
  have "cellTruthy (cellAt (rows ! 1) 0)"
    using falsy_cell_no_colon [of "headerCell rows"] assms(1,2) h by auto
  then show ?thesis
    using len assms(2) h parseRows_returns [OF assms(3)]
    by (simp add: parseExcel_def Let_def)
qed

lemma dataRows_mem:
  "(j, r) \<in> set (dataRows rows) \<longleftrightarrow> 2 \<le> j \<and> j < length rows \<and> r = rows ! j \<and> hasData r"
proof -
  have "(j, r) \<in> set (zip [2 ..< length rows] (drop 2 rows)) \<longleftrightarrow>
      2 \<le> j \<and> j < length rows \<and> r = rows ! j"
  proof
    assume "(j, r) \<in> set (zip [2 ..< length rows] (drop 2 rows))"
    then obtain i where i: "[2 ..< length rows] ! i = j" "drop 2 rows ! i = r"
        "i < length [2 ..< length rows]" "i < length (drop 2 rows)"
      by (auto simp: in_set_zip)
    then have "j = 2 + i" "i < length rows - 2" by auto
    then show "2 \<le> j \<and> j < length rows \<and> r = rows ! j" using i(2) by auto
  next
    assume a: "2 \<le> j \<and> j < length rows \<and> r = rows ! j"
    then have j: "Suc (Suc (j - 2)) = j" "2 + (j - 2) = j" by arith+
    have "[2 ..< length rows] ! (j - 2) = j" "drop 2 rows ! (j - 2) = r"
        "j - 2 < length [2 ..< length rows]" "j - 2 < length (drop 2 rows)"
      using a j by auto
    then show "(j, r) \<in> set (zip [2 ..< length rows] (drop 2 rows))"
      unfolding in_set_zip by (intro exI [of _ "j - 2"]) simp
  qed
  then show ?thesis by (simp add: dataRows_def)
qed

lemma parseRows_blank:
  "\<not> hasData r \<Longrightarrow> parseRows i (r # rest) st = parseRows (i + 1) rest st"
  by simp

text \<open>
  Claim C10. Extraction does not look at the label before the colon of the header
  cell (row 2, column A): the run stops with a header error exactly when the cell is
  absent or its trimmed text contains no colon; otherwise the header is accepted and the
  namespace returned is what follows the first colon of the trimmed text, trimmed. When
  the header is accepted and no non-blank row has a group key naming a property
  inherited from \<open>Object.prototype\<close>, extraction returns. The header \<open>ns:a:b\<close> gives
  the namespace \<open>a:b\<close>.
\<close>

theorem parseExcel_header:
  "((parseExcel rows = Inl NamespaceNotFound \<or> parseExcel rows = Inl NamespaceBadFormat) \<longleftrightarrow>
      (headerCell rows = Undefined \<or>
       \<not> includesChar (trim (cellString (headerCell rows))) colonChar)) \<and>
   (parseExcel rows = Inr p \<longrightarrow>
      namespace p =
        trim (drop 1 (dropWhile (\<lambda>x. x \<noteq> colonChar) (trim (cellString (headerCell rows)))))) \<and>
   (headerCell rows \<noteq> Undefined \<and>
    includesChar (trim (cellString (headerCell rows))) colonChar \<and>
    (\<forall>r\<in>set (drop 2 rows). hasData r \<longrightarrow> \<not> inherited (rowGroupKey r)) \<longrightarrow>
      (\<exists>q. parseExcel rows = Inr q)) \<and>
   parseExcel [[Str (S ''policies'')], [Str (S ''ns:a:b'')]] =
     Inr \<lparr>namespace = S ''a:b'', groups = [], entries = [], missingNums = []\<rparr>"
proof -
  have ex: "parseExcel [[Str (S ''policies'')], [Str (S ''ns:a:b'')]] =
     Inr \<lparr>namespace = S ''a:b'', groups = [], entries = [], missingNums = []\<rparr>"
    by code_simp
  show ?thesis
    using parseExcel_header_error [of rows] parseExcel_namespace [of rows p]
      parseExcel_returns [of rows] ex
    by blast
qed

theorem parseExcel_header_witness:
  "headerCell [[Str (S ''policies'')], [Str (S ''team : payments '')],
               [Num 1, Str (S ''tcp''), Str (S ''app:web''), Str (S ''ingress''),
                Str (S ''10.0.0.1''), Num 443]] \<noteq> Undefined \<and>
   includesChar (trim (cellString (headerCell
       [[Str (S ''policies'')], [Str (S ''team : payments '')],
        [Num 1, Str (S ''tcp''), Str (S ''app:web''), Str (S ''ingress''),
         Str (S ''10.0.0.1''), Num 443]]))) colonChar \<and>
   (\<exists>q. parseExcel [[Str (S ''policies'')], [Str (S ''team : payments '')],
               [Num 1, Str (S ''tcp''), Str (S ''app:web''), Str (S ''ingress''),
                Str (S ''10.0.0.1''), Num 443]] = Inr q \<and> namespace q = S ''payments'')"
proof -
  let ?rows = "[[Str (S ''policies'')], [Str (S ''team : payments '')],
               [Num 1, Str (S ''tcp''), Str (S ''app:web''), Str (S ''ingress''),
                Str (S ''10.0.0.1''), Num 443]]"
  have h1: "headerCell ?rows \<noteq> Undefined" by code_simp
  have h2: "includesChar (trim (cellString (headerCell ?rows))) colonChar" by code_simp
  have h3: "\<forall>r\<in>set (drop 2 ?rows). hasData r \<longrightarrow> \<not> inherited (rowGroupKey r)" by code_simp
  have v: "trim (drop 1 (dropWhile (\<lambda>x. x \<noteq> colonChar) (trim (cellString (headerCell ?rows))))) =
      S ''payments''" by code_simp
  from parseExcel_header [of ?rows] h1 h2 h3 obtain q where q: "parseExcel ?rows = Inr q"
    by blast
  from parseExcel_header [of ?rows q] q v have "namespace q = S ''payments''" by simp
  then show ?thesis using h1 h2 q by blast
qed

text \<open>
  Claim C7, as amended. Extraction goes through the rows from the third on. A row is
  skipped entirely (the state of the loop is left as it was: no row record, no group, no
  defect) exactly when each of its five content cells - protocol, group key, direction,
  counterpart and port - is absent, is a text that is blank after trimming, is the
  number 0 or is \<open>false\<close>: the test \<open>c && String(c).trim()\<close> takes a falsy cell for
  empty, as the reads \<open>String(row[k] || '')\<close> of the row record do. The returned row list
  holds one record for each remaining row, in order, and the defects list holds the
  1-based position of each remaining row whose rule-number cell is falsy; so a non-blank
  row whose rule-number cell is absent is in the defects list by its position and in the
  row list as well.
\<close>

theorem parseExcel_rows:
  "(parseExcel rows = Inr p \<longrightarrow>
      entries p = map (\<lambda>q. rowEntry (fst q) (snd q)) (dataRows rows) \<and>
      missingNums p =
        map (\<lambda>q. fst q + 1) (filter (\<lambda>q. \<not> cellTruthy (cellAt (snd q) 0)) (dataRows rows))) \<and>
   ((j, r) \<in> set (dataRows rows) \<longleftrightarrow> 2 \<le> j \<and> j < length rows \<and> r = rows ! j \<and> hasData r) \<and>
   (hasData r' \<longleftrightarrow>
      \<not> (cellBlank (cellAt r' 1) \<and> cellBlank (cellAt r' 2) \<and> cellBlank (cellAt r' 3) \<and>
         cellBlank (cellAt r' 4) \<and> cellBlank (cellAt r' 5))) \<and>
   (\<not> hasData r' \<longrightarrow> parseRows i (r' # rest) st = parseRows (i + 1) rest st) \<and>
   (parseExcel rows = Inr p \<and> (j, r) \<in> set (dataRows rows) \<and> cellAt r 0 = Undefined \<longrightarrow>
      j + 1 \<in> set (missingNums p) \<and> rowEntry j r \<in> set (entries p)) \<and>
   (headerCell rows \<noteq> Undefined \<and>
    includesChar (trim (cellString (headerCell rows))) colonChar \<and>
    (\<forall>x\<in>set (drop 2 rows). hasData x \<longrightarrow> \<not> inherited (rowGroupKey x)) \<longrightarrow>
      (\<exists>q. parseExcel rows = Inr q))"
proof -
  have a: "parseExcel rows = Inr p \<longrightarrow>
      entries p = map (\<lambda>q. rowEntry (fst q) (snd q)) (dataRows rows) \<and>
      missingNums p =
        map (\<lambda>q. fst q + 1) (filter (\<lambda>q. \<not> cellTruthy (cellAt (snd q) 0)) (dataRows rows))"
    using parseExcel_entries [of rows p] by blast
  have b: "parseExcel rows = Inr p \<and> (j, r) \<in> set (dataRows rows) \<and> cellAt r 0 = Undefined \<longrightarrow>
      j + 1 \<in> set (missingNums p) \<and> rowEntry j r \<in> set (entries p)"
  proof (intro impI, elim conjE)
    assume p: "parseExcel rows = Inr p" and m: "(j, r) \<in> set (dataRows rows)"
      and u: "cellAt r 0 = Undefined"
    have "(j, r) \<in> set (filter (\<lambda>q. \<not> cellTruthy (cellAt (snd q) 0)) (dataRows rows))"
      using m u by simp
    then have "(\<lambda>q. fst q + 1) (j, r) \<in> set (missingNums p)"
      unfolding parseExcel_entries(2) [OF p] set_map by (rule imageI)
    moreover have "(\<lambda>q. rowEntry (fst q) (snd q)) (j, r) \<in> set (entries p)"
      unfolding parseExcel_entries(1) [OF p] set_map using m by (rule imageI)
    ultimately show "j + 1 \<in> set (missingNums p) \<and> rowEntry j r \<in> set (entries p)" by simp
  qed
  have c: "headerCell rows \<noteq> Undefined \<and>
    includesChar (trim (cellString (headerCell rows))) colonChar \<and>
    (\<forall>x\<in>set (drop 2 rows). hasData x \<longrightarrow> \<not> inherited (rowGroupKey x)) \<longrightarrow>
      (\<exists>q. parseExcel rows = Inr q)"
    using parseExcel_returns [of rows] by blast
  have d: "\<not> hasData r' \<longrightarrow> parseRows i (r' # rest) st = parseRows (i + 1) rest st"
    using parseRows_blank [of r' i rest st] by blast
  from a dataRows_mem [of j r rows] hasData_blank [of r'] d b c show ?thesis
    by (intro conjI)
qed

theorem parseExcel_rows_witness:
  "headerCell [[Str (S ''policies'')], [Str (S ''namespace:billing'')],
               [Undefined, Str (S ''tcp''), Str (S ''app:web''), Str (S ''ingress''),
                Str (S ''10.0.0.1''), Num 443],
               [Num 2, Str (S ''  ''), Undefined, Bool False, Str [], Num 0],
               [Num 3, Str (S ''udp''), Str (S ''app:web''), Str (S ''egress''),
                Str (S ''app:dns''), Num 53]] \<noteq> Undefined \<and>
   \<not> hasData [Num 2, Str (S ''  ''), Undefined, Bool False, Str [], Num 0] \<and>
   hasData [Undefined, Str (S ''tcp''), Str (S ''app:web''), Str (S ''ingress''),
            Str (S ''10.0.0.1''), Num 443] \<and>
   (\<exists>q. parseExcel [[Str (S ''policies'')], [Str (S ''namespace:billing'')],
               [Undefined, Str (S ''tcp''), Str (S ''app:web''), Str (S ''ingress''),
                Str (S ''10.0.0.1''), Num 443],
               [Num 2, Str (S ''  ''), Undefined, Bool False, Str [], Num 0],
               [Num 3, Str (S ''udp''), Str (S ''app:web''), Str (S ''egress''),
                Str (S ''app:dns''), Num 53]] = Inr q \<and>
        map rowNum (entries q) = [3, 5] \<and> missingNums q = [3])"
proof -
  let ?r0 = "[Undefined, Str (S ''tcp''), Str (S ''app:web''), Str (S ''ingress''),
                Str (S ''10.0.0.1''), Num 443]"
  let ?rb = "[Num 2, Str (S ''  ''), Undefined, Bool False, Str [], Num 0]"
  let ?rows = "[[Str (S ''policies'')], [Str (S ''namespace:billing'')],
               ?r0, ?rb,
               [Num 3, Str (S ''udp''), Str (S ''app:web''), Str (S ''egress''),
                Str (S ''app:dns''), Num 53]]"
  have h1: "headerCell ?rows \<noteq> Undefined" by code_simp
  have h2: "includesChar (trim (cellString (headerCell ?rows))) colonChar" by code_simp
  have b: "cellBlank (cellAt ?rb 1) \<and> cellBlank (cellAt ?rb 2) \<and> cellBlank (cellAt ?rb 3) \<and>
      cellBlank (cellAt ?rb 4) \<and> cellBlank (cellAt ?rb 5)" by code_simp
  have h4: "\<not> hasData ?rb"
    using parseExcel_rows [where r' = ?rb, THEN conjunct2, THEN conjunct2, THEN conjunct1] b
    by (simp only: not_not)
  have nb: "\<not> cellBlank (cellAt ?r0 1)" by code_simp
  have h5: "hasData ?r0"
    using parseExcel_rows [where r' = ?r0, THEN conjunct2, THEN conjunct2, THEN conjunct1] nb
    by (simp only: simp_thms)
  have h3: "\<forall>x\<in>set (drop 2 ?rows). hasData x \<longrightarrow> \<not> inherited (rowGroupKey x)" by code_simp
  have d: "map (\<lambda>q. rowNum (rowEntry (fst q) (snd q))) (dataRows ?rows) = [3, 5]" by code_simp
  have m: "map (\<lambda>q. fst q + 1) (filter (\<lambda>q. \<not> cellTruthy (cellAt (snd q) 0)) (dataRows ?rows)) = [3]"
    by code_simp
  note ret = parseExcel_rows [where rows = ?rows, THEN conjunct2, THEN conjunct2, THEN conjunct2,
      THEN conjunct2, THEN conjunct2]
  from ret h1 h2 h3 obtain q where q: "parseExcel ?rows = Inr q"
    by blast
  note res = parseExcel_rows [where rows = ?rows and p = q, THEN conjunct1, THEN mp, OF q]
  from res
  have "entries q = map (\<lambda>q. rowEntry (fst q) (snd q)) (dataRows ?rows)"
    and "missingNums q =
      map (\<lambda>q. fst q + 1) (filter (\<lambda>q. \<not> cellTruthy (cellAt (snd q) 0)) (dataRows ?rows))"
    by (rule conjunct1, rule conjunct2)
  then have "map rowNum (entries q) = [3, 5]" and "missingNums q = [3]"
    using d m by (simp_all only: map_map comp_def)
  then show ?thesis using h1 h4 h5 q by (intro conjI exI [of _ q])
qed

theorem zero_port_cell_skipped:
  "cellAt [Num 5, Undefined, Undefined, Undefined, Undefined, Num 0] 5 = Num 0 \<and>
   trim (cellString (Num 0)) = S ''0'' \<and>
   parseExcel [[Str (S ''policies'')], [Str (S ''namespace:billing'')],
               [Num 5, Undefined, Undefined, Undefined, Undefined, Num 0]] =
     Inr \<lparr>namespace = S ''billing'', groups = [], entries = [], missingNums = []\<rparr>"
  by code_simp

section \<open>Patterns and their languages\<close>

subsection \<open>Languages\<close>

lemma conc_Cons_iff:
  "c # w \<in> conc A B \<longleftrightarrow>
     (\<exists>u v. w = u @ v \<and> c # u \<in> A \<and> v \<in> B) \<or> ([] \<in> A \<and> c # w \<in> B)"
proof
  assume "c # w \<in> conc A B"
  then obtain x y where xy: "c # w = x @ y" "x \<in> A" "y \<in> B" by (auto simp: conc_def)
  show "(\<exists>u v. w = u @ v \<and> c # u \<in> A \<and> v \<in> B) \<or> ([] \<in> A \<and> c # w \<in> B)"
  proof (cases x)
    case Nil
    then show ?thesis using xy by simp
  next
    case (Cons a x')
    then have "w = x' @ y" "c # x' \<in> A" using xy by simp_all
    then show ?thesis using xy(3) by blast
  qed
next
  assume "(\<exists>u v. w = u @ v \<and> c # u \<in> A \<and> v \<in> B) \<or> ([] \<in> A \<and> c # w \<in> B)"
  then show "c # w \<in> conc A B"
  proof
    assume "\<exists>u v. w = u @ v \<and> c # u \<in> A \<and> v \<in> B"
    then obtain u v where "w = u @ v" "c # u \<in> A" "v \<in> B" by blast
    then have "c # w = (c # u) @ v" by simp
    then show ?thesis using \<open>c # u \<in> A\<close> \<open>v \<in> B\<close> unfolding conc_def by blast
  next
    assume "[] \<in> A \<and> c # w \<in> B"
    then have "c # w = [] @ (c # w)" "[] \<in> A" "c # w \<in> B" by simp_all
    then show ?thesis unfolding conc_def by blast
  qed
qed

lemma Nil_in_conc: "[] \<in> conc A B \<longleftrightarrow> [] \<in> A \<and> [] \<in> B"
  by (auto simp: conc_def)

lemma star_Cons_iff:
  "c # w \<in> star A \<longleftrightarrow> (\<exists>u v. w = u @ v \<and> c # u \<in> A \<and> v \<in> star A)"
proof
  assume "c # w \<in> star A"
  then show "\<exists>u v. w = u @ v \<and> c # u \<in> A \<and> v \<in> star A"
  proof (induction "c # w" arbitrary: w rule: star.induct)
    case (star_app u v)
    show ?case
    proof (cases u)
      case Nil
      then have "v = c # w" using star_app.hyps(4) by simp
      then show ?thesis using star_app.hyps(3) by simp
    next
      case (Cons a u')
      then have "w = u' @ v" "c # u' \<in> A" using star_app.hyps(1,4) by simp_all
      then show ?thesis using star_app.hyps(2) by blast
    qed
  qed
next
  assume "\<exists>u v. w = u @ v \<and> c # u \<in> A \<and> v \<in> star A"
  then obtain u v where "w = u @ v" "c # u \<in> A" "v \<in> star A" by blast
  then have "(c # u) @ v \<in> star A" by (intro star.star_app)
  then show "c # w \<in> star A" using \<open>w = u @ v\<close> by simp
qed

lemma in_conc: "w \<in> conc A B \<longleftrightarrow> (\<exists>u v. w = u @ v \<and> u \<in> A \<and> v \<in> B)"
  by (auto simp: conc_def)

lemma nullable_lang: "nullable r \<longleftrightarrow> [] \<in> lang r"
  by (induction r) (auto simp: Nil_in_conc intro: star.star_Nil)

lemma lang_deriv: "w \<in> lang (deriv c r) \<longleftrightarrow> c # w \<in> lang r"
proof (induction r arbitrary: w)
  case (RSeq r s)
  have L: "w \<in> conc (lang (deriv c r)) (lang s) \<longleftrightarrow>
      (\<exists>u v. w = u @ v \<and> c # u \<in> lang r \<and> v \<in> lang s)"
    unfolding in_conc RSeq.IH(1) ..
  have R: "w \<in> lang (deriv c s) \<longleftrightarrow> c # w \<in> lang s" by (rule RSeq.IH(2))
  show ?case
  proof (cases "nullable r")
    case True
    then have n: "[] \<in> lang r" by (simp add: nullable_lang)
    have "w \<in> lang (deriv c (RSeq r s)) \<longleftrightarrow>
        w \<in> conc (lang (deriv c r)) (lang s) \<or> w \<in> lang (deriv c s)"
      using True by simp
    then show ?thesis unfolding L R lang.simps conc_Cons_iff using n by simp
  next
    case False
    then have n: "[] \<notin> lang r" by (simp add: nullable_lang)
    have "w \<in> lang (deriv c (RSeq r s)) \<longleftrightarrow> w \<in> conc (lang (deriv c r)) (lang s)"
      using False by simp
    then show ?thesis unfolding L lang.simps conc_Cons_iff using n by simp
  qed
next
  case (RStar r)
  have "w \<in> lang (deriv c (RStar r)) \<longleftrightarrow> w \<in> conc (lang (deriv c r)) (star (lang r))"
    by simp
  also have "\<dots> \<longleftrightarrow> (\<exists>u v. w = u @ v \<and> c # u \<in> lang r \<and> v \<in> star (lang r))"
    unfolding in_conc RStar.IH ..
  also have "\<dots> \<longleftrightarrow> c # w \<in> lang (RStar r)"
    unfolding lang.simps star_Cons_iff ..
  finally show ?case .
next
  case (RPlus r)
  have "w \<in> lang (deriv c (RPlus r)) \<longleftrightarrow> w \<in> conc (lang (deriv c r)) (star (lang r))"
    by simp
  also have "\<dots> \<longleftrightarrow> (\<exists>u v. w = u @ v \<and> c # u \<in> lang r \<and> v \<in> star (lang r))"
    unfolding in_conc RPlus.IH ..
  also have "\<dots> \<longleftrightarrow> c # w \<in> lang (RPlus r)"
  proof -
    have "[] \<in> lang r \<and> c # w \<in> star (lang r) \<Longrightarrow>
        \<exists>u v. w = u @ v \<and> c # u \<in> lang r \<and> v \<in> star (lang r)"
      unfolding star_Cons_iff by (rule conjunct2)
    then show ?thesis unfolding lang.simps conc_Cons_iff by blast
  qed
  finally show ?case .
qed auto

lemma matches_lang: "matches r s \<longleftrightarrow> s \<in> lang r"
  by (induction s arbitrary: r) (simp_all add: nullable_lang lang_deriv)

lemma star_class:
  "star {[c] | c. P c} = {w. \<forall>c\<in>set w. P c}"
proof (rule set_eqI, rule iffI)
  fix w assume "w \<in> star {[c] | c. P c}"
  then show "w \<in> {w. \<forall>c\<in>set w. P c}" by (induction rule: star.induct) auto
next
  fix w assume "w \<in> {w. \<forall>c\<in>set w. P c}"
  then show "w \<in> star {[c] | c. P c}"
  proof (induction w)
    case Nil
    then show ?case by (simp add: star.star_Nil)
  next
    case (Cons a w)
    then have "[a] \<in> {[c] | c. P c}" "w \<in> star {[c] | c. P c}" by auto
    then have "[a] @ w \<in> star {[c] | c. P c}" by (rule star.star_app)
    then show ?case by simp
  qed
qed

lemma lang_plus_class:
  "lang (RPlus (RClass rs)) = {w. w \<noteq> [] \<and> (\<forall>c\<in>set w. inClass rs c)}"
proof -
  have "conc {[c] | c. inClass rs c} {w. \<forall>c\<in>set w. inClass rs c} =
      {w. w \<noteq> [] \<and> (\<forall>c\<in>set w. inClass rs c)}"
  proof (rule set_eqI, rule iffI)
    fix w assume "w \<in> conc {[c] | c. inClass rs c} {w. \<forall>c\<in>set w. inClass rs c}"
    then show "w \<in> {w. w \<noteq> [] \<and> (\<forall>c\<in>set w. inClass rs c)}" by (auto simp: conc_def)
  next
    fix w assume "w \<in> {w. w \<noteq> [] \<and> (\<forall>c\<in>set w. inClass rs c)}"
    then obtain a w' where "w = [a] @ w'" "inClass rs a" "\<forall>c\<in>set w'. inClass rs c"
      by (cases w) auto
    then show "w \<in> conc {[c] | c. inClass rs c} {w. \<forall>c\<in>set w. inClass rs c}"
      unfolding conc_def by blast
  qed
  then show ?thesis by (simp add: star_class)
qed

lemma inClass_any: "inClass [(0, 0xFFFF)] c"
proof -
  have "c \<le> (- 1 :: jchar)" by simp
  moreover have "(- 1 :: jchar) = 0xFFFF" by simp
  ultimately show ?thesis by (simp add: inClass_def)
qed

lemma lang_star_any: "lang (RStar anyChar) = UNIV"
  unfolding anyChar_def lang.simps star_class by (simp add: inClass_any)

lemma search_lang: "search r s \<longleftrightarrow> (\<exists>u w v. s = u @ w @ v \<and> w \<in> lang r)"
proof -
  have "search r s \<longleftrightarrow> s \<in> conc UNIV (conc (lang r) UNIV)"
    unfolding search_def matches_lang lang.simps(4) lang_star_any ..
  also have "\<dots> \<longleftrightarrow> (\<exists>u w v. s = u @ w @ v \<and> w \<in> lang r)"
    by (simp add: in_conc) blast
  finally show ?thesis .
qed

lemma search_class: "search (RClass rs) s \<longleftrightarrow> (\<exists>c\<in>set s. inClass rs c)"
proof
  assume "search (RClass rs) s"
  then obtain u w v where "s = u @ w @ v" "w \<in> lang (RClass rs)" unfolding search_lang by blast
  then obtain c where "s = u @ [c] @ v" "inClass rs c" by auto
  then show "\<exists>c\<in>set s. inClass rs c" by auto
next
  assume "\<exists>c\<in>set s. inClass rs c"
  then obtain c where c: "c \<in> set s" "inClass rs c" by blast
  then obtain u v where "s = u @ c # v" by (auto simp: in_set_conv_decomp)
  then have "s = u @ [c] @ v" "[c] \<in> lang (RClass rs)" using c(2) by simp_all
  then show "search (RClass rs) s" unfolding search_lang by blast
qed

subsection \<open>The patterns of the scripts\<close>

lemma inClass_single: "inClass [(c, c)] x \<longleftrightarrow> x = c"
  by (auto simp: inClass_def)

lemma lang_chr: "lang (chr c) = {[c]}"
  by (auto simp: chr_def inClass_single)

lemma inClass_digit: "inClass [(0x30, 0x39)] c \<longleftrightarrow> isDigit c"
  by (simp add: inClass_def isDigit_def)

lemma lang_digits: "lang (RPlus digit) = {w. digits w}"
  unfolding digit_def lang_plus_class by (simp add: digits_def inClass_digit)

lemma in_conc_single: "w \<in> conc {[c]} B \<longleftrightarrow> (\<exists>v. w = c # v \<and> v \<in> B)"
  by (auto simp: conc_def)

lemma in_conc_digits: "w \<in> conc {w. digits w} B \<longleftrightarrow> (\<exists>a v. w = a @ v \<and> digits a \<and> v \<in> B)"
  by (auto simp: conc_def)

lemma lang_rxQuad: "s \<in> lang rxQuad \<longleftrightarrow> dottedQuad s"
  unfolding rxQuad_def dottedQuad_def lang.simps(4) lang_digits lang_chr
    in_conc_digits in_conc_single
  by (simp only: mem_Collect_eq append_Cons append_Nil) blast

lemma matches_rxQuad: "matches rxQuad s \<longleftrightarrow> dottedQuad s"
  by (simp add: matches_lang lang_rxQuad)

lemma matches_rxQuadPrefix: "matches rxQuadPrefix s \<longleftrightarrow> dottedQuadPrefix s"
proof -
  have "s \<in> lang rxQuadPrefix \<longleftrightarrow>
      (\<exists>q v. s = q @ v \<and> q \<in> lang rxQuad \<and> (\<exists>p. v = slashChar # p \<and> digits p))"
    unfolding rxQuadPrefix_def lang.simps(4) lang_digits lang_chr in_conc [of s] in_conc_single
    by simp
  then show ?thesis
    unfolding matches_lang dottedQuadPrefix_def lang_rxQuad by auto
qed

lemma matches_rxQuadOptPrefix:
  "matches rxQuadOptPrefix s \<longleftrightarrow> dottedQuad s \<or> dottedQuadPrefix s"
proof -
  have "s \<in> lang rxQuadOptPrefix \<longleftrightarrow>
      (\<exists>q v. s = q @ v \<and> q \<in> lang rxQuad \<and> ((\<exists>p. v = slashChar # p \<and> digits p) \<or> v = []))"
    unfolding rxQuadOptPrefix_def lang.simps(2,4,5) lang_digits lang_chr in_conc [of s] Un_iff
      in_conc_single
    by simp
  then show ?thesis
    unfolding matches_lang dottedQuadPrefix_def lang_rxQuad by auto
qed

lemma search_rxLetter: "search rxLetter v \<longleftrightarrow> (\<exists>c\<in>set v. isLetter c)"
  by (simp add: rxLetter_def search_class inClass_def isLetter_def)

lemma hasCyrillic_iff:
  "hasCyrillic e \<longleftrightarrow>
     list_ex (inClass [(0x410, 0x42F), (0x430, 0x44F), (0x401, 0x401), (0x451, 0x451)])
       (sourceLabel e @ destLabel e @ protocol e @ direction e @ port e)"
  unfolding hasCyrillic_def rxCyrillic_def search_class list_ex_iff ..

lemma digits_no_slash: "digits a \<Longrightarrow> slashChar \<notin> set a"
  by (auto simp: digits_def isDigit_def slashChar_def)

lemma dottedQuad_no_slash: "dottedQuad s \<Longrightarrow> \<not> includesChar s slashChar"
proof -
  assume "dottedQuad s"
  then obtain a b c d where "digits a" "digits b" "digits c" "digits d"
    and s: "s = a @ [dotChar] @ b @ [dotChar] @ c @ [dotChar] @ d"
    unfolding dottedQuad_def by blast
  moreover have "dotChar \<noteq> slashChar" by (simp add: dotChar_def slashChar_def)
  ultimately show ?thesis
    using digits_no_slash by (auto simp: includesChar_def)
qed

lemma dottedQuadPrefix_slash: "dottedQuadPrefix s \<Longrightarrow> includesChar s slashChar"
  by (auto simp: dottedQuadPrefix_def includesChar_def)

lemma dottedQuadPrefix_not_quad: "dottedQuadPrefix s \<Longrightarrow> \<not> dottedQuad s"
  using dottedQuad_no_slash dottedQuadPrefix_slash by blast

lemma detectItems_runs:
  "detectItems v = filter (\<lambda>s. s \<noteq> []) (map trim (runs sepCRLFComma v))"
  by (simp add: detectItems_def filter_trim_runs)

lemma normalise_items:
  assumes "\<forall>it\<in>set items. dottedQuad it \<or> dottedQuadPrefix it"
  shows "map (\<lambda>it. if includesChar it slashChar then it else it @ S ''/32'') items =
         map (\<lambda>it. if dottedQuad it then it @ S ''/32'' else it) items"
proof (rule map_cong [OF refl])
  fix it assume "it \<in> set items"
  then have "dottedQuad it \<or> dottedQuadPrefix it" using assms by blast
  then show "(if includesChar it slashChar then it else it @ S ''/32'') =
             (if dottedQuad it then it @ S ''/32'' else it)"
    using dottedQuad_no_slash [of it] dottedQuadPrefix_slash [of it] dottedQuadPrefix_not_quad [of it]
    by auto
qed

lemma detectType_eq_classify: "detectType raw = classify raw"
proof (cases "trim raw = []")
  case True
  then show ?thesis by (simp add: detectType_def classify_def)
next
  case ne: False
  define v where "v = trim raw"
  define items where "items = filter (\<lambda>s. s \<noteq> []) (map trim (runs sepCRLFComma v))"
  define rest where "rest =
        (if dottedQuadPrefix v then TCidr v
         else if dottedQuad v then TCidr (v @ S ''/32'')
         else if (\<exists>c\<in>set v. isLetter c) \<and> dotChar \<in> set v then TFqdn (toLowerCase v)
         else TLabel v)"
  have nv: "v \<noteq> []" using ne by (simp add: v_def)
  have all: "list_all (matches rxQuadOptPrefix) items \<longleftrightarrow>
      (\<forall>it\<in>set items. dottedQuad it \<or> dottedQuadPrefix it)"
    by (simp add: list_all_iff matches_rxQuadOptPrefix)
  have dt: "detectType raw =
      (if list_all (matches rxQuadOptPrefix) items \<and> length items > 1
       then TCidrList (map (\<lambda>it. if includesChar it slashChar then it else it @ S ''/32'') items)
       else rest)"
    unfolding detectType_def Let_def detectItems_runs v_def [symmetric] items_def [symmetric]
      rest_def matches_rxQuadPrefix matches_rxQuad search_rxLetter includesChar_def
    using nv by (simp only: if_False)
  have cl: "classify raw =
      (if length items > 1 \<and> (\<forall>it\<in>set items. dottedQuad it \<or> dottedQuadPrefix it)
       then TCidrList (map (\<lambda>it. if dottedQuad it then it @ S ''/32'' else it) items)
       else rest)"
    unfolding classify_def Let_def v_def [symmetric] items_def [symmetric] rest_def
    using nv by (simp only: if_False)
  show ?thesis
  proof (cases "length items > 1 \<and> (\<forall>it\<in>set items. dottedQuad it \<or> dottedQuadPrefix it)")
    case True
    then have n: "map (\<lambda>it. if includesChar it slashChar then it else it @ S ''/32'') items =
         map (\<lambda>it. if dottedQuad it then it @ S ''/32'' else it) items"
      using normalise_items by blast
    from True all have a: "(list_all (matches rxQuadOptPrefix) items \<and> length items > 1) = True"
      by blast
    have b: "(length items > 1 \<and> (\<forall>it\<in>set items. dottedQuad it \<or> dottedQuadPrefix it)) = True"
      using True by blast
    show ?thesis unfolding dt cl a b n by (simp only: if_True)
  next
    case False
    then have a: "(list_all (matches rxQuadOptPrefix) items \<and> length items > 1) = False"
      using all by blast
    have b: "(length items > 1 \<and> (\<forall>it\<in>set items. dottedQuad it \<or> dottedQuadPrefix it)) = False"
      using False by blast
    show ?thesis unfolding dt cl a b by (simp only: if_False)
  qed
qed

text \<open>
  Claim C2. Classification of a raw cell (\<open>detectType\<close> of
  \<open>converter_03_07_2025.js\<close>) is the cascade of the specification, applied to the
  trimmed string, the first matching case winning: empty gives \<open>empty\<close>; more than one
  item after cutting at commas and line breaks (the pieces of \<open>a\<close>, a separator, \<open>b\<close>
  are those of \<open>a\<close> followed by those of \<open>b\<close>, each trimmed, the empty ones dropped),
  every item a dotted quad with or without
  a prefix length, gives the list of items with \<open>/32\<close> appended to each bare quad; a
  dotted quad with a prefix length gives itself; a bare dotted quad gives itself with
  \<open>/32\<close> appended; a string with a letter and a dot gives the string in lower case as a
  domain name; anything else is a label cell.
\<close>

theorem detectType_classify:
  "detectType raw = classify raw \<and>
   (sepCRLFComma c \<longrightarrow>
      runs sepCRLFComma (a @ c # b) = runs sepCRLFComma a @ runs sepCRLFComma b) \<and>
   ((\<forall>x\<in>set s. \<not> sepCRLFComma x) \<longrightarrow> runs sepCRLFComma s = (if s = [] then [] else [s])) \<and>
   detectType (S ''10.0.0.1'') = TCidr (S ''10.0.0.1/32'') \<and>
   detectType (S ''10.0.0.1/24'') = TCidr (S ''10.0.0.1/24'') \<and>
   detectType (S ''10.0.0.1,10.0.0.2'') = TCidrList [S ''10.0.0.1/32'', S ''10.0.0.2/32'']"
proof -
  have a: "detectType (S ''10.0.0.1'') = TCidr (S ''10.0.0.1/32'')" by code_simp
  have b: "detectType (S ''10.0.0.1/24'') = TCidr (S ''10.0.0.1/24'')" by code_simp
  have c: "detectType (S ''10.0.0.1,10.0.0.2'') = TCidrList [S ''10.0.0.1/32'', S ''10.0.0.2/32'']"
    by code_simp
  have d: "sepCRLFComma c \<longrightarrow>
      runs sepCRLFComma (a @ c # b) = runs sepCRLFComma a @ runs sepCRLFComma b"
    using runs_append_sep [of sepCRLFComma c a b] by blast
  have e: "(\<forall>x\<in>set s. \<not> sepCRLFComma x) \<longrightarrow>
      runs sepCRLFComma s = (if s = [] then [] else [s])"
    by (simp add: runs_def splitRuns_no_sep)
  from detectType_eq_classify [of raw] d e a b c show ?thesis by (intro conjI)
qed

theorem detectType_classify_witness:
  "classify (S '' 10.0.0.1, 10.0.0.2/24 '') = TCidrList [S ''10.0.0.1/32'', S ''10.0.0.2/24''] \<and>
   classify (S ''Api.Internal.Example'') = TFqdn (S ''api.internal.example'') \<and>
   classify (S ''app:web,env:prod'') = TLabel (S ''app:web,env:prod'') \<and>
   classify (S ''10.0.0'') = TLabel (S ''10.0.0'') \<and>
   classify (S ''  '') = TEmpty"
proof -
  have a: "detectType (S '' 10.0.0.1, 10.0.0.2/24 '') = TCidrList [S ''10.0.0.1/32'', S ''10.0.0.2/24'']"
    by code_simp
  have b: "detectType (S ''Api.Internal.Example'') = TFqdn (S ''api.internal.example'')"
    by code_simp
  have c: "detectType (S ''app:web,env:prod'') = TLabel (S ''app:web,env:prod'')"
    by code_simp
  have d: "detectType (S ''10.0.0'') = TLabel (S ''10.0.0'')" by code_simp
  have e: "detectType (S ''  '') = TEmpty" by code_simp
  have a': "classify (S '' 10.0.0.1, 10.0.0.2/24 '') = TCidrList [S ''10.0.0.1/32'', S ''10.0.0.2/24'']"
    using detectType_classify [of "S '' 10.0.0.1, 10.0.0.2/24 ''", THEN conjunct1] a by simp
  have b': "classify (S ''Api.Internal.Example'') = TFqdn (S ''api.internal.example'')"
    using detectType_classify [of "S ''Api.Internal.Example''", THEN conjunct1] b by simp
  have c': "classify (S ''app:web,env:prod'') = TLabel (S ''app:web,env:prod'')"
    using detectType_classify [of "S ''app:web,env:prod''", THEN conjunct1] c by simp
  have d': "classify (S ''10.0.0'') = TLabel (S ''10.0.0'')"
    using detectType_classify [of "S ''10.0.0''", THEN conjunct1] d by simp
  have e': "classify (S ''  '') = TEmpty"
    using detectType_classify [of "S ''  ''", THEN conjunct1] e by simp
  from a' b' c' d' e' show ?thesis by (intro conjI)
qed

section \<open>Validation\<close>

lemma entries_rowNum_pos:
  assumes "parseExcel rows = Inr p"
  shows "\<forall>e\<in>set (entries p). 0 < rowNum e"
  unfolding parseExcel_entries(1) [OF assms] by (auto simp: rowEntry_def Let_def)

lemma validate_no_cyrillic:
  assumes "\<forall>e\<in>set es. 0 < rowNum e" and "\<forall>e\<in>set es. \<not> hasCyrillic e"
  shows "validate es = Inr (dupPairs [] es)"
proof -
  have "filter hasCyrillic es = []" using assms(2) by (simp add: filter_empty_conv)
  then show ?thesis using validate_eq [OF assms(1)] by simp
qed

lemma dupPairs_two:
  "sigKey e1 = sigKey e2 \<Longrightarrow> dupPairs [] [e1, e2] = [(rowNum e1, rowNum e2)]"
  by simp

lemma find_take_None:
  "j < length es \<Longrightarrow>
     find (\<lambda>p. sigKey p = sigKey (es ! j)) (take j es) = None \<longleftrightarrow>
     (\<forall>i<j. sigKey (es ! i) \<noteq> sigKey (es ! j))"
  by (auto simp: find_None_iff in_set_conv_nth)

lemma find_first:
  "find (\<lambda>p. sigKey p = k) xs = Some f \<Longrightarrow>
     \<exists>i<length xs. xs ! i = f \<and> sigKey f = k \<and> (\<forall>i'<i. sigKey (xs ! i') \<noteq> k)"
  by (auto simp: find_Some_iff)

lemma mainDocs_continues:
  assumes "parseExcel rows = Inr p" and "missingNums p = []"
    and "\<forall>e\<in>set (entries p). \<not> hasCyrillic e"
  shows "mainDocs dd rows =
     Inr (dupPairs [] (entries p),
          map (defaultPolicy (namespace p)) dd @
          map (\<lambda>kv. buildPolicy (namespace p) (fst kv) (snd kv)) (objEntries (groups p)))"
  using assms validate_no_cyrillic [OF entries_rowNum_pos [OF assms(1)] assms(3)]
  by (simp add: mainDocs_def)

text \<open>
  The duplicate check by its key. The check computes for each row a key: the direction,
  the source cell, the destination cell, the port cell and the protocol in upper case
  (\<open>ANY\<close> when empty), joined by \<open>|\<close>; rows whose first four parts contain no \<open>|\<close> have
  the same key exactly when the five parts agree. For rows with positive row numbers and
  no Cyrillic letter, the check returns the warnings and is never fatal. Going through
  the rows in order, a row with no earlier row of the same key gives no warning, and a
  row with such an earlier row gives exactly one warning, pairing the position of the
  first row bearing the key with its own. Two rows with the same key give exactly the
  one warning pairing their positions. The run then continues: the documents handed to
  the writer are the same whatever the warnings.
\<close>

theorem validate_duplicates:
  "((\<forall>e\<in>set es. 0 < rowNum e) \<and> (\<forall>e\<in>set es. \<not> hasCyrillic e) \<longrightarrow>
      validate es = Inr (dupPairs [] es)) \<and>
   dupPairs [] es =
     concat (map (\<lambda>j. case find (\<lambda>p. sigKey p = sigKey (es ! j)) (take j es) of
                         Some f \<Rightarrow> [(rowNum f, rowNum (es ! j))] | None \<Rightarrow> [])
                 [0 ..< length es]) \<and>
   (j < length es \<longrightarrow>
      (find (\<lambda>p. sigKey p = sigKey (es ! j)) (take j es) = None \<longleftrightarrow>
       (\<forall>i<j. sigKey (es ! i) \<noteq> sigKey (es ! j)))) \<and>
   (find (\<lambda>p. sigKey p = k) xs = Some f \<longrightarrow>
      (\<exists>i<length xs. xs ! i = f \<and> sigKey f = k \<and> (\<forall>i'<i. sigKey (xs ! i') \<noteq> k))) \<and>
   (0 < rowNum e1 \<and> 0 < rowNum e2 \<and> \<not> hasCyrillic e1 \<and> \<not> hasCyrillic e2 \<and>
    sigKey e1 = sigKey e2 \<longrightarrow> validate [e1, e2] = Inr [(rowNum e1, rowNum e2)]) \<and>
   sigKey e1 =
     direction e1 @ [barChar] @ sourceLabel e1 @ [barChar] @ destLabel e1 @ [barChar] @
     port e1 @ [barChar] @ toUpperCase (if protocol e1 = [] then S ''ANY'' else protocol e1) \<and>
   (barChar \<notin> set (direction e1 @ sourceLabel e1 @ destLabel e1 @ port e1) \<and>
    barChar \<notin> set (direction e2 @ sourceLabel e2 @ destLabel e2 @ port e2) \<longrightarrow>
      (sigKey e1 = sigKey e2 \<longleftrightarrow>
         direction e1 = direction e2 \<and> sourceLabel e1 = sourceLabel e2 \<and>
         destLabel e1 = destLabel e2 \<and> port e1 = port e2 \<and>
         toUpperCase (if protocol e1 \<noteq> [] then protocol e1 else S ''ANY'') =
         toUpperCase (if protocol e2 \<noteq> [] then protocol e2 else S ''ANY''))) \<and>
   (parseExcel rows = Inr p \<and> missingNums p = [] \<and> (\<forall>e\<in>set (entries p). \<not> hasCyrillic e) \<longrightarrow>
      mainDocs dd rows =
        Inr (dupPairs [] (entries p),
             map (defaultPolicy (namespace p)) dd @
             map (\<lambda>kv. buildPolicy (namespace p) (fst kv) (snd kv)) (objEntries (groups p))))"
proof -
  have a: "(\<forall>e\<in>set es. 0 < rowNum e) \<and> (\<forall>e\<in>set es. \<not> hasCyrillic e) \<longrightarrow>
      validate es = Inr (dupPairs [] es)"
    using validate_no_cyrillic [of es] by blast
  have b: "dupPairs [] es =
     concat (map (\<lambda>j. case find (\<lambda>p. sigKey p = sigKey (es ! j)) (take j es) of
                         Some f \<Rightarrow> [(rowNum f, rowNum (es ! j))] | None \<Rightarrow> [])
                 [0 ..< length es])"
    using dupPairs_index [of "[]" es] by simp
  have c: "j < length es \<longrightarrow>
      (find (\<lambda>p. sigKey p = sigKey (es ! j)) (take j es) = None \<longleftrightarrow>
       (\<forall>i<j. sigKey (es ! i) \<noteq> sigKey (es ! j)))"
    using find_take_None [of j es] by blast
  have d: "find (\<lambda>p. sigKey p = k) xs = Some f \<longrightarrow>
      (\<exists>i<length xs. xs ! i = f \<and> sigKey f = k \<and> (\<forall>i'<i. sigKey (xs ! i') \<noteq> k))"
    using find_first [of k xs f] by blast
  have e: "0 < rowNum e1 \<and> 0 < rowNum e2 \<and> \<not> hasCyrillic e1 \<and> \<not> hasCyrillic e2 \<and>
    sigKey e1 = sigKey e2 \<longrightarrow> validate [e1, e2] = Inr [(rowNum e1, rowNum e2)]"
  proof (intro impI, elim conjE)
    assume h: "0 < rowNum e1" "0 < rowNum e2" "\<not> hasCyrillic e1" "\<not> hasCyrillic e2"
      "sigKey e1 = sigKey e2"
    have "validate [e1, e2] = Inr (dupPairs [] [e1, e2])"
      by (rule validate_no_cyrillic) (use h in simp_all)
    then show "validate [e1, e2] = Inr [(rowNum e1, rowNum e2)]"
      by (simp only: dupPairs_two [OF h(5)])
  qed
  have f: "sigKey e1 =
     direction e1 @ [barChar] @ sourceLabel e1 @ [barChar] @ destLabel e1 @ [barChar] @
     port e1 @ [barChar] @ toUpperCase (if protocol e1 = [] then S ''ANY'' else protocol e1)"
    by (simp add: sigKey_def)
  have g: "barChar \<notin> set (direction e1 @ sourceLabel e1 @ destLabel e1 @ port e1) \<and>
    barChar \<notin> set (direction e2 @ sourceLabel e2 @ destLabel e2 @ port e2) \<longrightarrow>
      (sigKey e1 = sigKey e2 \<longleftrightarrow>
         direction e1 = direction e2 \<and> sourceLabel e1 = sourceLabel e2 \<and>
         destLabel e1 = destLabel e2 \<and> port e1 = port e2 \<and>
         toUpperCase (if protocol e1 \<noteq> [] then protocol e1 else S ''ANY'') =
         toUpperCase (if protocol e2 \<noteq> [] then protocol e2 else S ''ANY''))"
    using sigKey_inject [of e1 e2] by blast
  have h: "parseExcel rows = Inr p \<and> missingNums p = [] \<and> (\<forall>e\<in>set (entries p). \<not> hasCyrillic e) \<longrightarrow>
      mainDocs dd rows =
        Inr (dupPairs [] (entries p),
             map (defaultPolicy (namespace p)) dd @
             map (\<lambda>kv. buildPolicy (namespace p) (fst kv) (snd kv)) (objEntries (groups p)))"
    using mainDocs_continues [of rows p dd] by blast
  from a b c d e f g h show ?thesis by (intro conjI)
qed


theorem validate_duplicates_witness:
  "0 < rowNum (rowEntry 2 [Num 1, Str (S ''tcp''), Str (S ''app:web''), Str (S ''egress''),
                           Str (S ''app:db''), Num 80]) \<and>
   \<not> hasCyrillic (rowEntry 2 [Num 1, Str (S ''tcp''), Str (S ''app:web''), Str (S ''egress''),
                              Str (S ''app:db''), Num 80]) \<and>
   sigKey (rowEntry 2 [Num 1, Str (S ''tcp''), Str (S ''app:web''), Str (S ''egress''),
                       Str (S ''app:db''), Num 80]) =
   sigKey (rowEntry 3 [Num 2, Str (S ''TCP''), Str (S ''app:web''), Str (S ''egress''),
                       Str (S ''app:db''), Num 80]) \<and>
   validate [rowEntry 2 [Num 1, Str (S ''tcp''), Str (S ''app:web''), Str (S ''egress''),
                         Str (S ''app:db''), Num 80],
             rowEntry 3 [Num 2, Str (S ''TCP''), Str (S ''app:web''), Str (S ''egress''),
                         Str (S ''app:db''), Num 80]] = Inr [(3, 4)] \<and>
   (\<exists>docs. mainDocs [] [[Str (S ''policies'')], [Str (S ''namespace:billing'')],
        [Num 1, Str (S ''tcp''), Str (S ''app:web''), Str (S ''egress''), Str (S ''app:db''), Num 80],
        [Num 2, Str (S ''TCP''), Str (S ''app:web''), Str (S ''egress''), Str (S ''app:db''), Num 80]] =
      Inr ([(3, 4)], docs))"
proof -
  let ?r1 = "[Num 1, Str (S ''tcp''), Str (S ''app:web''), Str (S ''egress''), Str (S ''app:db''), Num 80]"
  let ?r2 = "[Num 2, Str (S ''TCP''), Str (S ''app:web''), Str (S ''egress''), Str (S ''app:db''), Num 80]"
  let ?rows = "[[Str (S ''policies'')], [Str (S ''namespace:billing'')], ?r1, ?r2]"
  have p1: "0 < rowNum (rowEntry 2 ?r1)" "0 < rowNum (rowEntry 3 ?r2)"
    by (simp_all add: rowEntry_def Let_def)
  have c1: "\<not> hasCyrillic (rowEntry 2 ?r1)" unfolding hasCyrillic_iff by code_simp
  have c2: "\<not> hasCyrillic (rowEntry 3 ?r2)" unfolding hasCyrillic_iff by code_simp
  have k: "sigKey (rowEntry 2 ?r1) = sigKey (rowEntry 3 ?r2)" by code_simp
  have n: "rowNum (rowEntry 2 ?r1) = 3" "rowNum (rowEntry 3 ?r2) = 4"
    by (simp_all add: rowEntry_def Let_def)
  note two = validate_duplicates [where ?e1.0 = "rowEntry 2 ?r1" and ?e2.0 = "rowEntry 3 ?r2",
      THEN conjunct2, THEN conjunct2, THEN conjunct2, THEN conjunct2, THEN conjunct1, THEN mp]
  have v: "validate [rowEntry 2 ?r1, rowEntry 3 ?r2] = Inr [(3, 4)]"
    using two [OF conjI [OF p1(1) conjI [OF p1(2) conjI [OF c1 conjI [OF c2 k]]]]]
    by (simp only: n)
  obtain q where q: "parseExcel ?rows = Inr q"
  proof -
    have "headerCell ?rows \<noteq> Undefined"
      "includesChar (trim (cellString (headerCell ?rows))) colonChar"
      "\<forall>r\<in>set (drop 2 ?rows). hasData r \<longrightarrow> \<not> inherited (rowGroupKey r)"
      by code_simp+
    then show ?thesis using parseExcel_returns [of ?rows] that by blast
  qed
  have dr: "dataRows ?rows = [(2, ?r1), (3, ?r2)]" by code_simp
  have en: "entries q = [rowEntry 2 ?r1, rowEntry 3 ?r2]"
    using parseExcel_entries(1) [OF q] by (simp only: dr list.map fst_conv snd_conv)
  have mi: "missingNums q = []"
  proof -
    have "filter (\<lambda>q. \<not> cellTruthy (cellAt (snd q) 0)) [(2::nat, ?r1), (3, ?r2)] = []"
      by code_simp
    then show ?thesis using parseExcel_entries(2) [OF q] by (simp only: dr list.map)
  qed
  have cy: "\<forall>e\<in>set (entries q). \<not> hasCyrillic e" using c1 c2 by (simp add: en)
  note run = validate_duplicates [where rows = ?rows and p = q and dd = "[]",
      THEN conjunct2, THEN conjunct2, THEN conjunct2, THEN conjunct2, THEN conjunct2,
      THEN conjunct2, THEN conjunct2, THEN mp, OF conjI [OF q conjI [OF mi cy]]]
  have dp: "dupPairs [] (entries q) = [(3, 4)]"
    by (simp only: en dupPairs_two [OF k] n)
  have "\<exists>docs. mainDocs [] ?rows = Inr ([(3, 4)], docs)"
    using run by (simp only: dp) blast
  then show ?thesis using p1(1) c1 k v by (intro conjI)
qed

text \<open>
  Claim C6 at two rows whose cells contain \<open>|\<close>. The first row has the source cell
  \<open>a|b\<close> and the destination cell \<open>c\<close>, the second the source cell \<open>a\<close> and the
  destination cell \<open>b|c\<close>; direction, port and protocol are the same. The signatures of
  the two rows differ in their source and destination parts, so neither row repeats the
  other and the claim asks for no warning. The key that \<open>validate\<close> builds joins the
  parts with \<open>|\<close> and is \<open>egress|a|b|c|80|TCP\<close> for both rows: the check reports the
  second row (position 4) as a duplicate of the first (position 3), and the run goes on
  with that warning.
\<close>

theorem bar_cells_reported_as_duplicates:
  "sourceLabel (rowEntry 2 [Num 1, Str (S ''tcp''), Str (S ''a|b''), Str (S ''egress''),
                            Str (S ''c''), Num 80]) = S ''a|b'' \<and>
   destLabel (rowEntry 2 [Num 1, Str (S ''tcp''), Str (S ''a|b''), Str (S ''egress''),
                          Str (S ''c''), Num 80]) = S ''c'' \<and>
   sourceLabel (rowEntry 3 [Num 2, Str (S ''tcp''), Str (S ''a''), Str (S ''egress''),
                            Str (S ''b|c''), Num 80]) = S ''a'' \<and>
   destLabel (rowEntry 3 [Num 2, Str (S ''tcp''), Str (S ''a''), Str (S ''egress''),
                          Str (S ''b|c''), Num 80]) = S ''b|c'' \<and>
   sigKey (rowEntry 2 [Num 1, Str (S ''tcp''), Str (S ''a|b''), Str (S ''egress''),
                       Str (S ''c''), Num 80]) = S ''egress|a|b|c|80|TCP'' \<and>
   sigKey (rowEntry 3 [Num 2, Str (S ''tcp''), Str (S ''a''), Str (S ''egress''),
                       Str (S ''b|c''), Num 80]) = S ''egress|a|b|c|80|TCP'' \<and>
   validate [rowEntry 2 [Num 1, Str (S ''tcp''), Str (S ''a|b''), Str (S ''egress''),
                         Str (S ''c''), Num 80],
             rowEntry 3 [Num 2, Str (S ''tcp''), Str (S ''a''), Str (S ''egress''),
                         Str (S ''b|c''), Num 80]] = Inr [(3, 4)] \<and>
   (\<exists>docs. mainDocs [] [[Str (S ''policies'')], [Str (S ''namespace:billing'')],
        [Num 1, Str (S ''tcp''), Str (S ''a|b''), Str (S ''egress''), Str (S ''c''), Num 80],
        [Num 2, Str (S ''tcp''), Str (S ''a''), Str (S ''egress''), Str (S ''b|c''), Num 80]] =
      Inr ([(3, 4)], docs))"
proof -
  let ?r1 = "[Num 1, Str (S ''tcp''), Str (S ''a|b''), Str (S ''egress''), Str (S ''c''), Num 80]"
  let ?r2 = "[Num 2, Str (S ''tcp''), Str (S ''a''), Str (S ''egress''), Str (S ''b|c''), Num 80]"
  let ?rows = "[[Str (S ''policies'')], [Str (S ''namespace:billing'')], ?r1, ?r2]"
  have f: "sourceLabel (rowEntry 2 ?r1) = S ''a|b''" "destLabel (rowEntry 2 ?r1) = S ''c''"
    "sourceLabel (rowEntry 3 ?r2) = S ''a''" "destLabel (rowEntry 3 ?r2) = S ''b|c''"
    by code_simp+
  have k1: "sigKey (rowEntry 2 ?r1) = S ''egress|a|b|c|80|TCP''" by code_simp
  have k2: "sigKey (rowEntry 3 ?r2) = S ''egress|a|b|c|80|TCP''" by code_simp
  have p: "\<forall>e\<in>set [rowEntry 2 ?r1, rowEntry 3 ?r2]. 0 < rowNum e"
    by (simp add: rowEntry_def Let_def)
  have c1: "\<not> hasCyrillic (rowEntry 2 ?r1)" unfolding hasCyrillic_iff by code_simp
  have c2: "\<not> hasCyrillic (rowEntry 3 ?r2)" unfolding hasCyrillic_iff by code_simp
  have c: "\<forall>e\<in>set [rowEntry 2 ?r1, rowEntry 3 ?r2]. \<not> hasCyrillic e" using c1 c2 by simp
  have k: "sigKey (rowEntry 2 ?r1) = sigKey (rowEntry 3 ?r2)" by (simp only: k1 k2)
  have n: "rowNum (rowEntry 2 ?r1) = 3" "rowNum (rowEntry 3 ?r2) = 4"
    by (simp_all add: rowEntry_def Let_def)
  have dp: "dupPairs [] [rowEntry 2 ?r1, rowEntry 3 ?r2] = [(3, 4)]"
    by (simp only: dupPairs_two [OF k] n)
  have v: "validate [rowEntry 2 ?r1, rowEntry 3 ?r2] = Inr [(3, 4)]"
    using validate_no_cyrillic [OF p c] by (simp only: dp)
  obtain q where q: "parseExcel ?rows = Inr q"
  proof -
    have "headerCell ?rows \<noteq> Undefined"
      "includesChar (trim (cellString (headerCell ?rows))) colonChar"
      "\<forall>r\<in>set (drop 2 ?rows). hasData r \<longrightarrow> \<not> inherited (rowGroupKey r)"
      by code_simp+
    then show ?thesis using parseExcel_returns [of ?rows] that by blast
  qed
  have dr: "dataRows ?rows = [(2, ?r1), (3, ?r2)]" by code_simp
  have en: "entries q = [rowEntry 2 ?r1, rowEntry 3 ?r2]"
    using parseExcel_entries(1) [OF q] by (simp only: dr list.map fst_conv snd_conv)
  have mi: "missingNums q = []"
  proof -
    have "filter (\<lambda>q. \<not> cellTruthy (cellAt (snd q) 0)) [(2::nat, ?r1), (3, ?r2)] = []"
      by code_simp
    then show ?thesis using parseExcel_entries(2) [OF q] by (simp only: dr list.map)
  qed
  have cy: "\<forall>e\<in>set (entries q). \<not> hasCyrillic e" using c1 c2 by (simp add: en)
  have "\<exists>docs. mainDocs [] ?rows = Inr ([(3, 4)], docs)"
    using mainDocs_continues [OF q mi cy, of "[]"] by (simp only: en dp) blast
  then show ?thesis using f k1 k2 v by (intro conjI)
qed

text \<open>
  Claim C3, as amended. The Validator does not look at whether the port cell of a row
  yields any item. It reports rows containing Cyrillic letters (fatal) and repeated
  signatures (warnings) and nothing else: rows with positive row numbers, no Cyrillic
  letter and pairwise different signatures pass with no warning, whatever their port
  cells. A row whose port cell yields no item - the empty cell among them - is
  translated into a fragment whose ports list is empty.
\<close>

theorem validate_ignores_ports:
  "((\<forall>e\<in>set es. 0 < rowNum e) \<and> (\<forall>e\<in>set es. \<not> hasCyrillic e) \<and> distinct (map sigKey es) \<longrightarrow>
      validate es = Inr []) \<and>
   (0 < rowNum e \<and> \<not> hasCyrillic e \<longrightarrow> validate [e] = Inr []) \<and>
   (portList (port e) = [] \<longrightarrow> jget (portsBlock e) (S ''ports'') = Some (JArr [])) \<and>
   portList [] = []"
proof -
  have a: "(\<forall>e\<in>set es. 0 < rowNum e) \<and> (\<forall>e\<in>set es. \<not> hasCyrillic e) \<and> distinct (map sigKey es) \<longrightarrow>
      validate es = Inr []"
    using validate_no_cyrillic [of es] dupPairs_distinct [of "[]" es] by simp
  have b: "0 < rowNum e \<and> \<not> hasCyrillic e \<longrightarrow> validate [e] = Inr []"
    using validate_no_cyrillic [of "[e]"] by simp
  have c: "portList (port e) = [] \<longrightarrow> jget (portsBlock e) (S ''ports'') = Some (JArr [])"
    by (simp add: jget_portsBlock_ports)
  have d: "portList [] = []" by code_simp
  from a b c d show ?thesis by (intro conjI)
qed

theorem validate_ignores_ports_witness:
  "0 < rowNum (rowEntry 2 [Num 1, Str (S ''tcp''), Str (S ''app:web''), Str (S ''egress''),
                           Str (S ''app:db'')]) \<and>
   \<not> hasCyrillic (rowEntry 2 [Num 1, Str (S ''tcp''), Str (S ''app:web''), Str (S ''egress''),
                              Str (S ''app:db'')]) \<and>
   port (rowEntry 2 [Num 1, Str (S ''tcp''), Str (S ''app:web''), Str (S ''egress''),
                     Str (S ''app:db'')]) = [] \<and>
   validate [rowEntry 2 [Num 1, Str (S ''tcp''), Str (S ''app:web''), Str (S ''egress''),
                         Str (S ''app:db'')]] = Inr [] \<and>
   jget (portsBlock (rowEntry 2 [Num 1, Str (S ''tcp''), Str (S ''app:web''), Str (S ''egress''),
                                 Str (S ''app:db'')])) (S ''ports'') = Some (JArr [])"
proof -
  let ?e = "rowEntry 2 [Num 1, Str (S ''tcp''), Str (S ''app:web''), Str (S ''egress''),
                        Str (S ''app:db'')]"
  have p: "0 < rowNum ?e" by (simp add: rowEntry_def Let_def)
  have c: "\<not> hasCyrillic ?e" unfolding hasCyrillic_iff by code_simp
  have e: "port ?e = []" by code_simp
  note t = validate_ignores_ports [where e = ?e]
  have pl: "portList (port ?e) = []" using t e by simp
  have v: "validate [?e] = Inr []"
    using t [THEN conjunct2, THEN conjunct1, THEN mp, OF conjI [OF p c]] .
  have g: "jget (portsBlock ?e) (S ''ports'') = Some (JArr [])"
    using t [THEN conjunct2, THEN conjunct2, THEN conjunct1, THEN mp, OF pl] .
  from p c e v g show ?thesis by (intro conjI)
qed

theorem empty_port_cell_passes:
  "mainDocs [] [[Str (S ''policies'')], [Str (S ''namespace:billing'')],
     [Num 1, Str (S ''tcp''), Str (S ''app:web''), Str (S ''egress''), Str (S ''app:db'')]] =
   Inr ([],
     [[(S ''apiVersion'', JStr (S ''cilium.io/v2'')),
       (S ''kind'', JStr (S ''CiliumNetworkPolicy'')),
       (S ''metadata'', JObj [(S ''name'', JStr (S ''billing-web'')),
                              (S ''namespace'', JStr (S ''billing''))]),
       (S ''spec'', JObj
          [(S ''endpointSelector'',
            JObj [(S ''matchLabels'', JObj [(S ''app'', JStr (S ''web''))])]),
           (S ''egress'', JArr
             [JObj [(S ''toEndpoints'',
                     JArr [JObj [(S ''matchLabels'', JObj [(S ''app'', JStr (S ''db''))])]]),
                    (S ''toPorts'', JArr [JObj [(S ''ports'', JArr [])]])]])])]])"
proof -
  let ?r = "[Num 1, Str (S ''tcp''), Str (S ''app:web''), Str (S ''egress''), Str (S ''app:db'')]"
  let ?rows = "[[Str (S ''policies'')], [Str (S ''namespace:billing'')], ?r]"
  let ?p = "\<lparr>namespace = S ''billing'', groups = [(S ''app:web'', [rowEntry 2 ?r])],
             entries = [rowEntry 2 ?r], missingNums = []\<rparr>"
  have p: "parseExcel ?rows = Inr ?p" by code_simp
  have c: "\<not> hasCyrillic (rowEntry 2 ?r)" unfolding hasCyrillic_iff by code_simp
  have m: "mainDocs [] ?rows =
     Inr (dupPairs [] (entries ?p),
          map (defaultPolicy (namespace ?p)) [] @
          map (\<lambda>kv. buildPolicy (namespace ?p) (fst kv) (snd kv)) (objEntries (groups ?p)))"
    by (rule mainDocs_continues [OF p]) (simp_all add: c)
  have e: "objEntries [(S ''app:web'', [rowEntry 2 ?r])] = [(S ''app:web'', [rowEntry 2 ?r])]"
    by code_simp
  have b: "buildPolicy (S ''billing'') (S ''app:web'') [rowEntry 2 ?r] =
     [(S ''apiVersion'', JStr (S ''cilium.io/v2'')),
       (S ''kind'', JStr (S ''CiliumNetworkPolicy'')),
       (S ''metadata'', JObj [(S ''name'', JStr (S ''billing-web'')),
                              (S ''namespace'', JStr (S ''billing''))]),
       (S ''spec'', JObj
          [(S ''endpointSelector'',
            JObj [(S ''matchLabels'', JObj [(S ''app'', JStr (S ''web''))])]),
           (S ''egress'', JArr
             [JObj [(S ''toEndpoints'',
                     JArr [JObj [(S ''matchLabels'', JObj [(S ''app'', JStr (S ''db''))])]]),
                    (S ''toPorts'', JArr [JObj [(S ''ports'', JArr [])]])]])])]"
    by code_simp
  show ?thesis unfolding m by (simp add: e b)
qed

section \<open>The label parser\<close>

subsection \<open>Labels\<close>

lemma splitStr_two_pieces:
  assumes "includesChar s c"
  shows "\<exists>a b r. splitStr c s = a # b # r"
proof -
  have ne: "dropWhile (\<lambda>x. x \<noteq> c) s \<noteq> []"
    using assms by (auto simp: includesChar_def dropWhile_eq_Nil_conv)
  obtain b r where "splitStr c (tl (dropWhile (\<lambda>x. x \<noteq> c) s)) = b # r"
    using splitStr_not_Nil [of c "tl (dropWhile (\<lambda>x. x \<noteq> c) s)"]
    by (cases "splitStr c (tl (dropWhile (\<lambda>x. x \<noteq> c) s))") auto
  then show ?thesis using splitStr_sep [OF ne] by simp
qed

lemma labelStep_eq: "labelStep ob p = objAssignStr ob (labelKey p) (labelValue p)"
proof (cases "dropWhile (\<lambda>x. x \<noteq> colonChar) p = []")
  case True
  have "labelStep ob p = objAssignStr ob (trim p) (trim (join [colonChar] []))"
    unfolding labelStep_def splitStr_no_sep [OF True] by simp
  then have l: "labelStep ob p = objAssignStr ob (trim p) []" by simp
  have tw: "takeWhile (\<lambda>x. x \<noteq> colonChar) p = p"
    using True by (simp add: dropWhile_eq_Nil_conv)
  show ?thesis unfolding labelKey_def labelValue_def tw True l by simp
next
  case False
  have "labelStep ob p =
      objAssignStr ob (trim (takeWhile (\<lambda>x. x \<noteq> colonChar) p))
        (trim (join [colonChar] (splitStr colonChar (tl (dropWhile (\<lambda>x. x \<noteq> colonChar) p)))))"
    unfolding labelStep_def splitStr_sep [OF False] by simp
  then show ?thesis
    by (simp add: labelKey_def labelValue_def join_splitStr drop_Suc)
qed

lemma splitLabels_fold:
  "splitLabels raw =
     foldl (\<lambda>ob p. objAssignStr ob (labelKey p) (labelValue p)) [] (labelSegments raw)"
proof -
  have "labelStep = (\<lambda>ob p. objAssignStr ob (labelKey p) (labelValue p))"
    by (intro ext) (rule labelStep_eq)
  then show ?thesis by (simp add: splitLabels_def)
qed

lemma filter_colon_trim_filter:
  "filter (\<lambda>s. includesChar s colonChar) (map trim (filter (\<lambda>s. s \<noteq> []) xs)) =
   filter (\<lambda>s. includesChar s colonChar) (map trim xs)"
  by (induction xs) (simp_all add: includesChar_def)

lemma labelSegments_runs:
  "labelSegments raw = filter (\<lambda>s. includesChar s colonChar) (map trim (runs sepLFComma raw))"
  by (simp add: labelSegments_def runs_def filter_colon_trim_filter)

lemma labelSegments_append:
  "sepLFComma c \<Longrightarrow> labelSegments (a @ c # b) = labelSegments a @ labelSegments b"
  by (simp add: labelSegments_runs runs_append_sep)

lemma labelSegments_single:
  "\<forall>x\<in>set s. \<not> sepLFComma x \<Longrightarrow>
     labelSegments s = (if colonChar \<in> set (trim s) then [trim s] else [])"
  by (simp add: labelSegments_def splitRuns_no_sep includesChar_def)

lemma objGet_objAssignStr:
  "objGet (objAssignStr ob k v) k' =
     (if k = S ''__proto__'' then objGet ob k' else if k' = k then Some v else objGet ob k')"
  by (simp add: objAssignStr_def objGet_objSet)

lemma objGet_fold_assign:
  "objGet (foldl (\<lambda>ob p. objAssignStr ob (labelKey p) (labelValue p)) ob0 segs) k =
     (if k = S ''__proto__'' then objGet ob0 k
      else case map_of (rev (map (\<lambda>p. (labelKey p, labelValue p)) segs)) k of
             Some v \<Rightarrow> Some v | None \<Rightarrow> objGet ob0 k)"
proof (induction segs arbitrary: ob0)
  case Nil
  then show ?case by simp
next
  case (Cons p segs)
  show ?case
    by (simp add: Cons.IH objGet_objAssignStr map_add_def split: option.splits)
qed

lemma splitLabels_lookup:
  "objGet (splitLabels raw) k =
     (if k = S ''__proto__'' then None
      else map_of (rev (map (\<lambda>p. (labelKey p, labelValue p)) (labelSegments raw))) k)"
  unfolding splitLabels_fold objGet_fold_assign
  by (simp add: objGet_def split: option.splits)

lemma splitLabels_last_wins:
  assumes "labelSegments raw = xs @ p # ys" and "labelKey p \<noteq> S ''__proto__''"
    and "\<forall>q\<in>set ys. labelKey q \<noteq> labelKey p"
  shows "objGet (splitLabels raw) (labelKey p) = Some (labelValue p)"
proof -
  let ?kv = "\<lambda>p. (labelKey p, labelValue p)"
  have "map_of (rev (map ?kv ys)) (labelKey p) = None"
    using assms(3) by (auto simp: map_of_eq_None_iff image_iff)
  then have "map_of (rev (map ?kv (xs @ p # ys))) (labelKey p) = Some (labelValue p)"
    by (simp add: map_add_def)
  then show ?thesis using assms(1,2) by (simp add: splitLabels_lookup)
qed

lemma splitLabels_absent:
  assumes "\<forall>q\<in>set (labelSegments raw). labelKey q \<noteq> k"
  shows "objGet (splitLabels raw) k = None"
proof -
  have "map_of (rev (map (\<lambda>p. (labelKey p, labelValue p)) (labelSegments raw))) k = None"
    using assms by (auto simp: map_of_eq_None_iff image_iff)
  then show ?thesis by (simp add: splitLabels_lookup)
qed

text \<open>
  The label parser, key by key. Parsing a raw label cell cuts it at every run of commas
  and line feeds, trims the pieces and keeps those containing a colon; each kept segment
  is cut at its first colon into a key and a value, both trimmed, and the value is
  assigned to the key in a plain object. For every key other than \<open>__proto__\<close> the value
  of the last segment with that key is the one found, and a key of no segment is absent;
  the key \<open>__proto__\<close> is never found in the result. The cell \<open>key:a:b\<close> gives the key
  \<open>key\<close> with the value \<open>a:b\<close>.
\<close>

theorem splitLabels_parse:
  "splitLabels raw =
     foldl (\<lambda>ob p. objAssignStr ob (labelKey p) (labelValue p)) [] (labelSegments raw) \<and>
   (sepLFComma c \<longrightarrow> labelSegments (a @ c # b) = labelSegments a @ labelSegments b) \<and>
   ((\<forall>x\<in>set s. \<not> sepLFComma x) \<longrightarrow>
      labelSegments s = (if colonChar \<in> set (trim s) then [trim s] else [])) \<and>
   (labelSegments raw = xs @ p # ys \<and> labelKey p \<noteq> S ''__proto__'' \<and>
    (\<forall>q\<in>set ys. labelKey q \<noteq> labelKey p) \<longrightarrow>
      objGet (splitLabels raw) (labelKey p) = Some (labelValue p)) \<and>
   ((\<forall>q\<in>set (labelSegments raw). labelKey q \<noteq> k) \<longrightarrow> objGet (splitLabels raw) k = None) \<and>
   objGet (splitLabels raw) (S ''__proto__'') = None \<and>
   splitLabels (S ''key:a:b'') = [(S ''key'', S ''a:b'')]"
proof -
  have a: "sepLFComma c \<longrightarrow> labelSegments (a @ c # b) = labelSegments a @ labelSegments b"
    using labelSegments_append [of c a b] by blast
  have b: "(\<forall>x\<in>set s. \<not> sepLFComma x) \<longrightarrow>
      labelSegments s = (if colonChar \<in> set (trim s) then [trim s] else [])"
    using labelSegments_single [of s] by blast
  have c: "labelSegments raw = xs @ p # ys \<and> labelKey p \<noteq> S ''__proto__'' \<and>
    (\<forall>q\<in>set ys. labelKey q \<noteq> labelKey p) \<longrightarrow>
      objGet (splitLabels raw) (labelKey p) = Some (labelValue p)"
    using splitLabels_last_wins [of raw xs p ys] by blast
  have d: "(\<forall>q\<in>set (labelSegments raw). labelKey q \<noteq> k) \<longrightarrow> objGet (splitLabels raw) k = None"
    using splitLabels_absent [of raw k] by blast
  have e: "objGet (splitLabels raw) (S ''__proto__'') = None"
    by (simp add: splitLabels_lookup)
  have f: "splitLabels (S ''key:a:b'') = [(S ''key'', S ''a:b'')]" by code_simp
  from splitLabels_fold [of raw] a b c d e f show ?thesis by (intro conjI)
qed

theorem splitLabels_parse_witness:
  "sepLFComma 0x2C \<and>
   labelSegments (S ''env:dev, tier'' @ 0x2C # S '' env : prod '') = [S ''env:dev'', S ''env : prod''] \<and>
   labelKey (S ''env : prod'') = S ''env'' \<and> labelValue (S ''env : prod'') = S ''prod'' \<and>
   objGet (splitLabels (S ''env:dev, tier'' @ 0x2C # S '' env : prod '')) (S ''env'') = Some (S ''prod'') \<and>
   objGet (splitLabels (S ''env:dev, tier'' @ 0x2C # S '' env : prod '')) (S ''tier'') = None"
proof -
  let ?raw = "S ''env:dev, tier'' @ 0x2C # S '' env : prod ''"
  have h: "sepLFComma 0x2C" by (simp add: sepLFComma_def)
  have s1: "labelSegments (S ''env:dev, tier'') = [S ''env:dev'']" by code_simp
  have s2: "labelSegments (S '' env : prod '') = [S ''env : prod'']" by code_simp
  note t = splitLabels_parse [where raw = ?raw and c = "0x2C" and a = "S ''env:dev, tier''"
      and b = "S '' env : prod ''" and xs = "[S ''env:dev'']" and p = "S ''env : prod''"
      and ys = "[]" and k = "S ''tier''"]
  have seg: "labelSegments ?raw = [S ''env:dev'', S ''env : prod'']"
    using t [THEN conjunct2, THEN conjunct1, THEN mp, OF h] by (simp only: s1 s2 append.simps)
  have k: "labelKey (S ''env : prod'') = S ''env''" by code_simp
  have v: "labelValue (S ''env : prod'') = S ''prod''" by code_simp
  have k1: "labelKey (S ''env:dev'') = S ''env''" by code_simp
  have np: "labelKey (S ''env : prod'') \<noteq> S ''__proto__''" unfolding k by (simp add: S_def)
  have seg': "labelSegments ?raw = [S ''env:dev''] @ S ''env : prod'' # []" using seg by simp
  have "objGet (splitLabels ?raw) (labelKey (S ''env : prod'')) = Some (labelValue (S ''env : prod''))"
    using t [THEN conjunct2, THEN conjunct2, THEN conjunct2, THEN conjunct1, THEN mp]
      seg' np by simp
  then have g: "objGet (splitLabels ?raw) (S ''env'') = Some (S ''prod'')" by (simp only: k v)
  have ne: "labelKey (S ''env:dev'') \<noteq> S ''tier''" "labelKey (S ''env : prod'') \<noteq> S ''tier''"
    unfolding k k1 by (simp_all add: S_def)
  have "\<forall>q\<in>set (labelSegments ?raw). labelKey q \<noteq> S ''tier''"
    unfolding seg using ne by simp
  then have n: "objGet (splitLabels ?raw) (S ''tier'') = None"
    using t [THEN conjunct2, THEN conjunct2, THEN conjunct2, THEN conjunct2, THEN conjunct1, THEN mp]
    by blast
  from h seg k v g n show ?thesis by (intro conjI)
qed

text \<open>
  Claim C9 at the label cell \<open>__proto__:x\<close>. The cell is one segment and contains a
  colon, so it is kept; cut at its first colon it gives the key \<open>__proto__\<close> and the
  value \<open>x\<close>, and the claim asks for a mapping that holds this key with this value.
  \<open>splitLabels\<close> returns the empty object: \<open>o[k] = v\<close> with this key runs the setter
  inherited from \<open>Object.prototype\<close>, which ignores a string, and stores nothing.
\<close>

theorem proto_label_not_stored:
  "labelSegments (S ''__proto__:x'') = [S ''__proto__:x''] \<and>
   labelKey (S ''__proto__:x'') = S ''__proto__'' \<and>
   labelValue (S ''__proto__:x'') = S ''x'' \<and>
   splitLabels (S ''__proto__:x'') = []"
  by code_simp

end
